theory Spec2Isabelle
  imports Complex_Main "HOL-Library.Word" "HOL-Library.Log_Nat"
begin

unbundle bit_operations_syntax

section \<open>stamped\_counter.hpp: a (stamp, counter) pair packed into 64 bits\<close>

text \<open>
  \<^verbatim>\<open>value_type\<close> is \<^verbatim>\<open>std::uint64_t\<close>, \<^verbatim>\<open>stamp_type\<close> and \<^verbatim>\<open>counter_type\<close> are
  \<^verbatim>\<open>std::uint32_t\<close>. The class has the single data member \<^verbatim>\<open>value\<close>.
\<close>

type_synonym value_type = "64 word"
type_synonym stamp_type = "32 word"
type_synonym sc_counter_type = "32 word"

record stamped_counter =
  sc_value :: value_type

text \<open>\<^verbatim>\<open>return (val & 0xFFFFFFFF00000000) >> 32;\<close> converted to the 32-bit return type.\<close>

definition extract_stamp :: "value_type \<Rightarrow> stamp_type" where
  "extract_stamp val = ucast (drop_bit 32 (val AND 0xFFFFFFFF00000000))"

text \<open>\<^verbatim>\<open>return (val & 0x00000000FFFFFFFF);\<close> converted to the 32-bit return type.\<close>

definition extract_counter :: "value_type \<Rightarrow> sc_counter_type" where
  "extract_counter val = ucast (val AND 0x00000000FFFFFFFF)"

text \<open>\<^verbatim>\<open>return static_cast<value_type>(stamp) << 32 | counter;\<close>
  (the shift binds tighter than the bitwise or; \<^verbatim>\<open>counter\<close> is promoted to 64 bits).\<close>

definition pack :: "stamp_type \<Rightarrow> sc_counter_type \<Rightarrow> value_type" where
  "pack stamp counter = push_bit 32 (ucast stamp :: value_type) OR ucast counter"

text \<open>The two explicit constructors.\<close>

definition stamped_counter_of_parts :: "stamp_type \<Rightarrow> sc_counter_type \<Rightarrow> stamped_counter" where
  "stamped_counter_of_parts stamp counter = \<lparr>sc_value = pack stamp counter\<rparr>"

definition stamped_counter_of_value :: "value_type \<Rightarrow> stamped_counter" where
  "stamped_counter_of_value val = \<lparr>sc_value = val\<rparr>"

text \<open>The \<^verbatim>\<open>const\<close> accessors \<^verbatim>\<open>stamp()\<close>, \<^verbatim>\<open>counter()\<close> and \<^verbatim>\<open>get_value()\<close>.\<close>

definition stamp :: "stamped_counter \<Rightarrow> stamp_type" where
  "stamp sc = extract_stamp (sc_value sc)"

definition counter :: "stamped_counter \<Rightarrow> sc_counter_type" where
  "counter sc = extract_counter (sc_value sc)"

definition get_value :: "stamped_counter \<Rightarrow> value_type" where
  "get_value sc = sc_value sc"

section \<open>backoff.hpp: exponential back-off\<close>

text \<open>
  \<^verbatim>\<open>std::size_t\<close> is taken to be 64 bits wide (the code is written for x86-64: its
  back-off loop executes the \<^verbatim>\<open>pause\<close> instruction). An \<open>event\<close> records what an
  operation does besides changing memory: \<open>Spin n\<close> is a busy loop of \<open>n\<close> \<^verbatim>\<open>pause\<close>
  instructions, \<open>Yield\<close> a call of \<^verbatim>\<open>std::this_thread::yield()\<close>, and \<open>Access i\<close> a use
  of element \<open>i\<close> of a tree's node array.
\<close>

type_synonym size_type = "64 word"

datatype event = Spin nat | Yield | Access size_type

text \<open>The class has the single data member \<^verbatim>\<open>tries\<close>, initialised to 1, and the
  constant \<^verbatim>\<open>MAX_TRIES = 16\<close>.\<close>

record exponential_backoff =
  tries :: size_type

definition MAX_TRIES :: size_type where
  "MAX_TRIES = 16"

definition exponential_backoff_init :: exponential_backoff where
  "exponential_backoff_init = \<lparr>tries = 1\<rparr>"

lemma word_succ_unat:
  fixes i d :: "'a::len word"
  assumes "i < d"
  shows "unat (i + 1) = Suc (unat i)"
proof -
  have "unat i < unat d" using assms by (simp add: word_less_nat_alt)
  moreover have "unat d < 2 ^ LENGTH('a)" by (rule unsigned_less)
  ultimately have "unat i + unat (1 :: 'a word) < 2 ^ LENGTH('a)" by (simp del: unsigned_less)
  then show ?thesis by (simp add: unat_add_lem [THEN iffD1])
qed

text \<open>The private \<^verbatim>\<open>backoff(std::size_t delay)\<close>:
  \<^verbatim>\<open>for (std::size_t i = 0; i < delay; ++i) pause;\<close>. The loop is modelled with its
  own counter; the result is the number of \<^verbatim>\<open>pause\<close> instructions executed.\<close>

function pause_loop :: "size_type \<Rightarrow> size_type \<Rightarrow> nat \<Rightarrow> nat" where
  "pause_loop i delay n = (if i < delay then pause_loop (i + 1) delay (Suc n) else n)"
  by pat_completeness auto
termination
  by (relation "measure (\<lambda>(i, delay, n). unat delay - unat i)")
     (auto simp add: word_succ_unat word_less_nat_alt)

declare pause_loop.simps [simp del]

definition backoff_delay :: "size_type \<Rightarrow> nat" where
  "backoff_delay delay = pause_loop 0 delay 0"

text \<open>The public \<^verbatim>\<open>backoff()\<close> and \<^verbatim>\<open>reset()\<close>.\<close>

definition backoff :: "exponential_backoff \<Rightarrow> event \<times> exponential_backoff" where
  "backoff b =
     (if tries b \<le> MAX_TRIES then (Spin (backoff_delay (tries b)), b\<lparr>tries := tries b * 2\<rparr>)
      else (Yield, b))"

definition reset :: "exponential_backoff \<Rightarrow> exponential_backoff" where
  "reset b = b\<lparr>tries := 1\<rparr>"

text \<open>\<open>n\<close> successive calls of \<^verbatim>\<open>backoff()\<close> on one object, with the events they cause.\<close>

fun backoff_calls :: "nat \<Rightarrow> exponential_backoff \<Rightarrow> event list \<times> exponential_backoff" where
  "backoff_calls 0 b = ([], b)"
| "backoff_calls (Suc n) b =
     (case backoff b of (ev, b') \<Rightarrow>
        (case backoff_calls n b' of (evs, b'') \<Rightarrow> (ev # evs, b'')))"

text \<open>The specification's description of call number \<open>k\<close> (counted from 0) on a fresh
  object, for a given cap: a busy loop of \<open>2 ^ k\<close> pauses while that does not exceed the
  cap, a yield afterwards.\<close>

definition spec_backoff_event :: "nat \<Rightarrow> nat \<Rightarrow> event" where
  "spec_backoff_event cap k = (if 2 ^ k \<le> cap then Spin (2 ^ k) else Yield)"


section \<open>snzi.hpp: the SNZI tree\<close>

text \<open>
  \<^verbatim>\<open>size_type\<close> is \<^verbatim>\<open>std::size_t\<close> and \<^verbatim>\<open>counter_type\<close> is \<^verbatim>\<open>std::uint64_t\<close>, both
  64-bit words whose arithmetic wraps around.

  The file declares three classes, \<^verbatim>\<open>no_contention_handling_snzi\<close>,
  \<^verbatim>\<open>semi_contention_handling_snzi\<close> and \<^verbatim>\<open>full_contention_handling_snzi\<close>. Their data
  members, constructors and index arithmetic are the same text three times; the node
  operations of the second and third class are the same text twice. The model has one
  tree type with a \<open>kind\<close> field telling which class an object belongs to; the
  operations branch on it where the classes differ.

  An \<open>error\<close> is what ends an operation early: the two exceptions the constructor can
  throw, and \<open>Undefined_Behaviour\<close> for executions that C++ gives no meaning (an array
  index out of bounds, a division by zero, the use of an uninitialised member, the
  conversion of an out-of-range \<^verbatim>\<open>double\<close> to an integer, signed overflow).
\<close>

type_synonym counter_type = "64 word"

datatype error = Invalid_Argument | Bad_Alloc | Undefined_Behaviour

datatype variant = No_Contention | Semi_Contention | Full_Contention

text \<open>
  \<^verbatim>\<open>struct node\<close>: the counter \<^verbatim>\<open>X\<close>, the flag \<^verbatim>\<open>announce\<close> (a member of the
  contention-handling classes only; in a \<open>No_Contention\<close> tree the field is never read or
  written after construction) and the parent index, which \<^verbatim>\<open>node()\<close> leaves
  uninitialised. The back pointer \<^verbatim>\<open>snzi_tree\<close> is implicit: node operations take the
  tree as an argument.
\<close>

record node =
  node_X :: counter_type
  node_announce :: bool
  node_parent :: "size_type option"

text \<open>The data members of the tree classes; \<open>root_X\<close> is the member \<^verbatim>\<open>X\<close> of
  \<^verbatim>\<open>root\<close>, \<open>others\<close> the array of the other nodes.\<close>

record snzi =
  kind :: variant
  arity :: size_type
  total_nodes :: size_type
  total_leaf_nodes :: size_type
  threads_per_leaf :: size_type
  total_threads :: size_type
  root_X :: counter_type
  others :: "node list"

subsection \<open>Index arithmetic\<close>

text \<open>
  \<^verbatim>\<open>pow_int(b, e)\<close>: \<^verbatim>\<open>result = 1; for (i = 1; i <= e; ++i) result *= b;\<close>.
  The loop does not end when \<open>e\<close> is the largest \<^verbatim>\<open>size_t\<close>, so it is a partial function.
\<close>

partial_function (option) pow_int_loop ::
  "size_type \<Rightarrow> size_type \<Rightarrow> size_type \<Rightarrow> size_type \<Rightarrow> size_type option" where
  "pow_int_loop b e i result =
     (if i \<le> e then pow_int_loop b e (i + 1) (result * b) else Some result)"

declare pow_int_loop.simps [code]

definition pow_int :: "size_type \<Rightarrow> size_type \<Rightarrow> size_type option" where
  "pow_int b e = pow_int_loop b e 1 1"

text \<open>\<^verbatim>\<open>nodes_count\<close>: \<^verbatim>\<open>return (pow_int(K,H+1) - 1)/(K-1);\<close>. Its assertion
  \<^verbatim>\<open>K != 1\<close> holds at every call: the constructors call it after rejecting \<open>K < 2\<close>.\<close>

definition nodes_count :: "size_type \<Rightarrow> size_type \<Rightarrow> size_type option" where
  "nodes_count K H = Option.bind (pow_int K (H + 1)) (\<lambda>p. Some ((p - 1) div (K - 1)))"

definition leaves_count :: "size_type \<Rightarrow> size_type \<Rightarrow> size_type option" where
  "leaves_count K H = pow_int K H"

text \<open>\<^verbatim>\<open>parent(id)\<close>: \<^verbatim>\<open>return (id - 1)/arity;\<close>.\<close>

definition parent :: "snzi \<Rightarrow> size_type \<Rightarrow> size_type" where
  "parent t i = (i - 1) div arity t"

text \<open>
  \<^verbatim>\<open>get_leaf_for_thread(tid)\<close>:
  \<^verbatim>\<open>return total_nodes - total_leaf_nodes + ((tid/threads_per_leaf)%total_leaf_nodes);\<close>.
  A zero divisor is undefined behaviour.
\<close>

definition get_leaf_for_thread :: "snzi \<Rightarrow> size_type \<Rightarrow> error + size_type" where
  "get_leaf_for_thread t tid =
     (if threads_per_leaf t = 0 \<or> total_leaf_nodes t = 0 then Inl Undefined_Behaviour
      else Inr (total_nodes t - total_leaf_nodes t
                + ((tid div threads_per_leaf t) mod total_leaf_nodes t)))"

subsection \<open>The floating-point computation of \<^verbatim>\<open>threads_per_leaf\<close>\<close>

text \<open>
  The constructors compute
  \<^verbatim>\<open>static_cast<size_type>(std::ceil((double)T/(double)total_leaf_nodes))\<close>.
  A \<^verbatim>\<open>double\<close> is an IEEE 754 binary64 number: 53 significant bits, results rounded to
  the nearest representable number, ties to the one with an even significand. The values
  that occur here are 0 or lie between \<open>2 ^ - 64\<close> and \<open>2 ^ 64\<close>, far inside the exponent
  range, so rounding is all there is to model; the numbers themselves are rationals.
\<close>

definition round_nearest_even :: "rat \<Rightarrow> int" where
  "round_nearest_even x =
     (let f = \<lfloor>x\<rfloor>; d = x - of_int f
      in if d < 1 / 2 then f else if 1 / 2 < d then f + 1 else if even f then f else f + 1)"

text \<open>The binary exponent \<open>\<lfloor>log\<^sub>2 x\<rfloor>\<close> of a positive rational.\<close>

definition ilog2 :: "rat \<Rightarrow> int" where
  "ilog2 x =
     (case quotient_of x of (p, q) \<Rightarrow>
        let d = bitlen p - bitlen q in if 2 powi d \<le> x then d else d - 1)"

definition round_to_double :: "rat \<Rightarrow> rat" where
  "round_to_double x =
     (if x = 0 then 0
      else let e = ilog2 x - 52
           in of_int (round_nearest_even (x / 2 powi e)) * 2 powi e)"

text \<open>\<^verbatim>\<open>(double)n\<close> for an unsigned 64-bit \<open>n\<close>.\<close>

definition double_of_size :: "size_type \<Rightarrow> rat" where
  "double_of_size n = round_to_double (of_int (uint n))"

text \<open>\<^verbatim>\<open>static_cast<size_type>(d)\<close> for a non-negative \<open>d\<close>: the fraction is dropped; a
  value that does not fit has no defined result (\<open>None\<close>).\<close>

definition size_of_double :: "rat \<Rightarrow> size_type option" where
  "size_of_double d = (if \<lfloor>d\<rfloor> < 2 ^ 64 then Some (word_of_int \<lfloor>d\<rfloor>) else None)"

text \<open>The whole expression. Dividing by \<^verbatim>\<open>0.0\<close> gives an infinity or a NaN, whose
  conversion to an integer is undefined as well.\<close>

definition ceil_div_double :: "size_type \<Rightarrow> size_type \<Rightarrow> size_type option" where
  "ceil_div_double T l =
     (if l = 0 then None
      else size_of_double
             (of_int \<lceil>round_to_double (double_of_size T / double_of_size l)\<rceil>))"

subsection \<open>Construction\<close>

text \<open>\<^verbatim>\<open>node()\<close> stores 0 in \<^verbatim>\<open>X\<close> (and \<^verbatim>\<open>false\<close> in \<^verbatim>\<open>announce\<close>).\<close>

definition node_init :: node where
  "node_init = \<lparr>node_X = 0, node_announce = False, node_parent = None\<rparr>"

text \<open>
  The loop of the constructor:
  \<^verbatim>\<open>for (size_type i = 1; i < total_nodes; ++i){ others[i].parent = parent(i); }\<close>.
\<close>

function init_parents :: "size_type \<Rightarrow> snzi \<Rightarrow> snzi" where
  "init_parents i t =
     (if i < total_nodes t
      then init_parents (i + 1)
             (t\<lparr>others := (others t)[unat i := (others t ! unat i)\<lparr>node_parent := Some (parent t i)\<rparr>]\<rparr>)
      else t)"
  by pat_completeness auto
termination
  by (relation "measure (\<lambda>(i, t). unat (total_nodes t) - unat i)")
     (auto simp add: word_succ_unat word_less_nat_alt)

declare init_parents.simps [simp del]

text \<open>
  The constructor, the same for the three classes. \<open>alloc n\<close> tells whether
  \<^verbatim>\<open>new node[n]\<close> succeeds; otherwise it throws \<^verbatim>\<open>std::bad_alloc\<close>. The result is
  \<open>None\<close> when \<^verbatim>\<open>pow_int\<close> does not return.
\<close>

definition snzi_ctor ::
  "variant \<Rightarrow> (size_type \<Rightarrow> bool) \<Rightarrow> size_type \<Rightarrow> size_type \<Rightarrow> size_type \<Rightarrow> (error + snzi) option" where
  "snzi_ctor v alloc K H T =
     (if K < 2 then Some (Inl Invalid_Argument)
      else
        case nodes_count K H of None \<Rightarrow> None | Some n \<Rightarrow>
        case leaves_count K H of None \<Rightarrow> None | Some l \<Rightarrow>
        case ceil_div_double T l of None \<Rightarrow> Some (Inl Undefined_Behaviour) | Some r \<Rightarrow>
        if \<not> alloc n then Some (Inl Bad_Alloc)
        else Some (Inr (init_parents 1
               \<lparr>kind = v, arity = K, total_nodes = n, total_leaf_nodes = l,
                threads_per_leaf = (if r = 0 then 1 else r), total_threads = T,
                root_X = 0, others = replicate (unat n) node_init\<rparr>)))"

subsection \<open>Single-threaded execution\<close>

text \<open>
  The operations are modelled as one thread runs them, with no other thread touching the
  tree meanwhile. Then an atomic load returns the stored value, \<^verbatim>\<open>fetch_add\<close> and
  \<^verbatim>\<open>fetch_sub\<close> add and subtract, and a compare-exchange succeeds when the stored value
  is the expected one; \<^verbatim>\<open>compare_exchange_weak\<close> may in addition fail spuriously. The
  environment \<open>env\<close> says how often: each loop around a \<^verbatim>\<open>compare_exchange_weak\<close> takes
  the next number from \<open>spurious\<close> and suffers that many spurious failures (none when the
  list is used up). \<open>trace\<close> collects the events of the run.
\<close>

record env =
  spurious :: "nat list"
  trace :: "event list"

definition next_spurious :: "env \<Rightarrow> nat \<times> env" where
  "next_spurious e = (case spurious e of [] \<Rightarrow> (0, e) | n # ns \<Rightarrow> (n, e\<lparr>spurious := ns\<rparr>))"

definition log_events :: "event list \<Rightarrow> env \<Rightarrow> env" where
  "log_events evs e = e\<lparr>trace := trace e @ evs\<rparr>"

text \<open>
  \<open>compare_exchange fail x expected desired\<close> is \<^verbatim>\<open>X.compare_exchange_weak(expected,
  desired)\<close> (or \<^verbatim>\<open>_strong\<close>, with \<open>fail = False\<close>) on an atomic holding \<open>x\<close>: it returns
  whether it succeeded, the value the atomic holds afterwards, and the value of
  \<^verbatim>\<open>expected\<close> afterwards (on failure the value found).
\<close>

definition compare_exchange ::
  "bool \<Rightarrow> counter_type \<Rightarrow> counter_type \<Rightarrow> counter_type \<Rightarrow> bool \<times> counter_type \<times> counter_type" where
  "compare_exchange fail x expected desired =
     (if x = expected \<and> \<not> fail then (True, desired, expected) else (False, x, x))"

subsection \<open>The root node\<close>

definition root_Arrive :: "snzi \<Rightarrow> snzi" where
  "root_Arrive t = t\<lparr>root_X := root_X t + 1\<rparr>"

definition root_Depart :: "snzi \<Rightarrow> snzi" where
  "root_Depart t = t\<lparr>root_X := root_X t - 1\<rparr>"

definition root_Query :: "snzi \<Rightarrow> bool" where
  "root_Query t = (root_X t \<noteq> 0)"

text \<open>\<^verbatim>\<open>struct contention_status\<close> of the full variant, all members initialised to
  \<^verbatim>\<open>false\<close>, and its constant \<^verbatim>\<open>MaxContentionNumFailures = 5\<close>.\<close>

record contention_status =
  use_snzi_in_arrive :: bool
  use_snzi_in_depart :: bool
  use_snzi_tree_flag :: bool

definition contention_status_init :: contention_status where
  "contention_status_init =
     \<lparr>use_snzi_in_arrive = False, use_snzi_in_depart = False, use_snzi_tree_flag = False\<rparr>"

definition MaxContentionNumFailures :: int where
  "MaxContentionNumFailures = 5"

text \<open>
  The loop of \<^verbatim>\<open>ArriveDirectly\<close>:
  \<^verbatim>\<open>while (!X.compare_exchange_weak(oldx, oldx + 1)){ ++num_failures; backoff.backoff(); }\<close>.
  \<open>n\<close> is the number of spurious failures still to come. \<^verbatim>\<open>num_failures\<close> is an
  \<^verbatim>\<open>int\<close>; incrementing it beyond \<open>2 ^ 31 - 1\<close> is undefined. The result is the new value
  of \<^verbatim>\<open>X\<close>, the number of failures and the back-off events.
\<close>

function arrive_directly_loop ::
  "nat \<Rightarrow> counter_type \<Rightarrow> counter_type \<Rightarrow> int \<Rightarrow> exponential_backoff \<Rightarrow> event list
    \<Rightarrow> error + counter_type \<times> int \<times> event list" where
  "arrive_directly_loop n x oldx num_failures bk evs =
     (case compare_exchange (0 < n) x oldx (oldx + 1) of
        (ok, x', oldx') \<Rightarrow>
          if ok then Inr (x', num_failures, evs)
          else if num_failures = 2 ^ 31 - 1 then Inl Undefined_Behaviour
          else case backoff bk of
                 (ev, bk') \<Rightarrow>
                   arrive_directly_loop (n - 1) x' oldx' (num_failures + 1) bk' (evs @ [ev]))"
  by pat_completeness auto
termination
  by (relation "measure (\<lambda>(n, x, oldx, num_failures, bk, evs). 2 * n + (if x = oldx then 0 else 1))")
     (auto simp add: compare_exchange_def split: if_splits)

declare arrive_directly_loop.simps [simp del]

definition ArriveDirectly ::
  "contention_status \<Rightarrow> snzi \<Rightarrow> env \<Rightarrow> error + snzi \<times> contention_status \<times> env" where
  "ArriveDirectly cont t e =
     (case next_spurious e of
        (n, e1) \<Rightarrow>
          case arrive_directly_loop n (root_X t) (root_X t) 0 exponential_backoff_init [] of
            Inl err \<Rightarrow> Inl err
          | Inr (x', num_failures, evs) \<Rightarrow>
              Inr (t\<lparr>root_X := x'\<rparr>,
                   (if MaxContentionNumFailures \<le> num_failures
                    then cont\<lparr>use_snzi_tree_flag := True\<rparr> else cont),
                   log_events evs e1))"

definition DepartDirectly :: "contention_status \<Rightarrow> snzi \<Rightarrow> snzi \<times> contention_status" where
  "DepartDirectly cont t =
     (root_Depart t,
      if use_snzi_tree_flag cont
      then cont\<lparr>use_snzi_in_depart := True, use_snzi_in_arrive := True\<rparr> else cont)"

subsection \<open>The other nodes: \<^verbatim>\<open>Depart\<close>\<close>

text \<open>
  \<^verbatim>\<open>no_contention_handling_snzi::node::Depart\<close>:
  \<^verbatim>\<open>while (!X.compare_exchange_weak(oldx, oldx - 1)){}\<close>; the result is the new \<^verbatim>\<open>X\<close> and
  the final \<^verbatim>\<open>oldx\<close>.
\<close>

function depart_loop_weak :: "nat \<Rightarrow> counter_type \<Rightarrow> counter_type \<Rightarrow> counter_type \<times> counter_type" where
  "depart_loop_weak n x oldx =
     (case compare_exchange (0 < n) x oldx (oldx - 1) of
        (ok, x', oldx') \<Rightarrow> if ok then (x', oldx') else depart_loop_weak (n - 1) x' oldx')"
  by pat_completeness auto
termination
  by (relation "measure (\<lambda>(n, x, oldx). 2 * n + (if x = oldx then 0 else 1))")
     (auto simp add: compare_exchange_def split: if_splits)

declare depart_loop_weak.simps [simp del]

text \<open>
  The contention-handling classes:
  \<^verbatim>\<open>do{ if (oldx == 1){ announce.store(false); } } while (!X.compare_exchange_strong(oldx, oldx - 1));\<close>;
  the result is the new \<^verbatim>\<open>X\<close>, the new \<^verbatim>\<open>announce\<close> and the final \<^verbatim>\<open>oldx\<close>.
\<close>

function depart_loop_strong ::
  "counter_type \<Rightarrow> bool \<Rightarrow> counter_type \<Rightarrow> counter_type \<times> bool \<times> counter_type" where
  "depart_loop_strong x ann oldx =
     (case compare_exchange False x oldx (oldx - 1) of
        (ok, x', oldx') \<Rightarrow>
          if ok then (x', if oldx = 1 then False else ann, oldx')
          else depart_loop_strong x' (if oldx = 1 then False else ann) oldx')"
  by pat_completeness auto
termination
  by (relation "measure (\<lambda>(x, ann, oldx). if x = oldx then 0 else 1)")
     (auto simp add: compare_exchange_def split: if_splits)

declare depart_loop_strong.simps [simp del]

text \<open>
  The part of \<^verbatim>\<open>node::Depart\<close> before the parent is told: load \<^verbatim>\<open>X\<close>, run the loop.
  The result is the node afterwards, the final \<^verbatim>\<open>oldx\<close> and the environment.
\<close>

definition depart_local :: "variant \<Rightarrow> node \<Rightarrow> env \<Rightarrow> node \<times> counter_type \<times> env" where
  "depart_local v nd e =
     (if v = No_Contention
      then case next_spurious e of
             (n, e1) \<Rightarrow>
               case depart_loop_weak n (node_X nd) (node_X nd) of
                 (x', oldx') \<Rightarrow> (nd\<lparr>node_X := x'\<rparr>, oldx', e1)
      else case depart_loop_strong (node_X nd) (node_announce nd) (node_X nd) of
             (x', ann', oldx') \<Rightarrow> (nd\<lparr>node_X := x', node_announce := ann'\<rparr>, oldx', e))"

text \<open>
  \<^verbatim>\<open>others[i].Depart()\<close>. The expression \<^verbatim>\<open>others[i]\<close> is recorded as \<open>Access i\<close>; an
  index outside the array is undefined behaviour, and so is a switch on a parent index
  that was never written. The recursion follows the parent indices stored in the
  nodes, so it need not end on an arbitrary tree.
\<close>

partial_function (option) node_Depart ::
  "size_type \<Rightarrow> snzi \<Rightarrow> env \<Rightarrow> (error + snzi \<times> env) option" where
  "node_Depart i t e =
     (if \<not> unat i < length (others t) then Some (Inl Undefined_Behaviour)
      else
        case depart_local (kind t) (others t ! unat i) (log_events [Access i] e) of
          (nd', oldx, e') \<Rightarrow>
            let t' = t\<lparr>others := (others t)[unat i := nd']\<rparr>
            in if oldx = 1
               then case node_parent nd' of
                      None \<Rightarrow> Some (Inl Undefined_Behaviour)
                    | Some p \<Rightarrow>
                        if p = 0 then Some (Inr (root_Depart t', e'))
                        else node_Depart p t' e'
               else Some (Inr (t', e')))"

declare node_Depart.simps [code]

subsection \<open>The other nodes: \<^verbatim>\<open>Arrive\<close>\<close>

text \<open>
  The waiting loop of the contention-handling classes, entered when \<^verbatim>\<open>announce\<close> is
  set:
  \<^verbatim>\<open>for (int i = 0; i < DelayAmount; ++i){ oldx = X.load(); if (oldx){ doArrive = false; break; } backoff.backoff(); }\<close>
  with \<^verbatim>\<open>DelayAmount = 16\<close>. The result is \<^verbatim>\<open>oldx\<close>, \<^verbatim>\<open>doArrive\<close> and the back-off
  events.
\<close>

definition DelayAmount :: nat where
  "DelayAmount = 16"

function announce_wait ::
  "nat \<Rightarrow> counter_type \<Rightarrow> counter_type \<Rightarrow> exponential_backoff \<Rightarrow> event list
    \<Rightarrow> counter_type \<times> bool \<times> event list" where
  "announce_wait i x oldx bk evs =
     (if i < DelayAmount
      then if x \<noteq> 0 then (x, False, evs)
           else case backoff bk of (ev, bk') \<Rightarrow> announce_wait (i + 1) x x bk' (evs @ [ev])
      else (oldx, True, evs))"
  by pat_completeness auto
termination
  by (relation "measure (\<lambda>(i, x, oldx, bk, evs). DelayAmount - i)") auto

declare announce_wait.simps [simp del]

text \<open>
  The body of the \<^verbatim>\<open>do\<close> loop of \<^verbatim>\<open>node::Arrive\<close> up to the decision whether the
  parent is to be told: the test \<^verbatim>\<open>!oldx && !pArrInv\<close> and, in the contention-handling
  classes, the wait on \<^verbatim>\<open>announce\<close> and the store \<^verbatim>\<open>announce.store(true)\<close>. The result
  is \<^verbatim>\<open>oldx\<close>, whether the parent is to be told, the node and the environment.
\<close>

definition arrive_decide ::
  "variant \<Rightarrow> counter_type \<Rightarrow> bool \<Rightarrow> node \<Rightarrow> env \<Rightarrow> counter_type \<times> bool \<times> node \<times> env" where
  "arrive_decide v oldx pArrInv nd e =
     (if oldx = 0 \<and> \<not> pArrInv
      then if v = No_Contention then (oldx, True, nd, e)
           else case (if node_announce nd
                      then announce_wait 0 (node_X nd) oldx exponential_backoff_init []
                      else (oldx, True, [])) of
                  (oldx', doArrive, evs) \<Rightarrow>
                    (oldx', doArrive,
                     (if doArrive then nd\<lparr>node_announce := True\<rparr> else nd),
                     log_events evs e)
      else (oldx, False, nd, e))"

text \<open>
  The \<^verbatim>\<open>do\<close> loop of \<^verbatim>\<open>node::Arrive\<close> for the node \<^verbatim>\<open>others[i]\<close>, from the state of
  its local variables \<^verbatim>\<open>oldx\<close> and \<^verbatim>\<open>pArrInv\<close>, followed by the rest of the function.
  \<open>n\<close> is the number of spurious failures still to come in this loop. A call of
  \<^verbatim>\<open>others[p].Arrive()\<close> inside the body is the same loop for the node \<open>p\<close>, entered
  with \<^verbatim>\<open>oldx = X.load()\<close> and \<^verbatim>\<open>pArrInv = false\<close>.
\<close>

partial_function (option) arrive_loop ::
  "size_type \<Rightarrow> counter_type \<Rightarrow> bool \<Rightarrow> nat \<Rightarrow> snzi \<Rightarrow> env \<Rightarrow> (error + snzi \<times> env) option" where
  "arrive_loop i oldx pArrInv n t e =
     (case arrive_decide (kind t) oldx pArrInv (others t ! unat i) e of
        (oldx1, doArrive, nd1, e1) \<Rightarrow>
          let t1 = t\<lparr>others := (others t)[unat i := nd1]\<rparr>
          in Option.bind
               (if doArrive
                then case node_parent nd1 of
                       None \<Rightarrow> Some (Inl Undefined_Behaviour)
                     | Some p \<Rightarrow>
                         if p = 0 then Some (Inr (root_Arrive t1, e1))
                         else if \<not> unat p < length (others t1) then Some (Inl Undefined_Behaviour)
                         else case next_spurious (log_events [Access p] e1) of
                                (np, e2) \<Rightarrow>
                                  arrive_loop p (node_X (others t1 ! unat p)) False np t1 e2
                else Some (Inr (t1, e1)))
               (\<lambda>r. case r of
                  Inl err \<Rightarrow> Some (Inl err)
                | Inr (t2, e2) \<Rightarrow>
                    let pArrInv' = (pArrInv \<or> doArrive);
                        nd2 = others t2 ! unat i
                    in case compare_exchange (0 < n) (node_X nd2) oldx1 (oldx1 + 1) of
                         (ok, x', oldx') \<Rightarrow>
                           if \<not> ok then arrive_loop i oldx' pArrInv' (n - 1) t2 e2
                           else
                             let t3 = t2\<lparr>others := (others t2)[unat i := nd2\<lparr>node_X := x'\<rparr>]\<rparr>
                             in if pArrInv' \<and> oldx' \<noteq> 0
                                then case node_parent nd2 of
                                       None \<Rightarrow> Some (Inl Undefined_Behaviour)
                                     | Some p \<Rightarrow>
                                         if p = 0 then Some (Inr (root_Depart t3, e2))
                                         else node_Depart p t3 e2
                                else Some (Inr (t3, e2))))"

declare arrive_loop.simps [code]

text \<open>\<^verbatim>\<open>others[i].Arrive()\<close>.\<close>

definition node_Arrive :: "size_type \<Rightarrow> snzi \<Rightarrow> env \<Rightarrow> (error + snzi \<times> env) option" where
  "node_Arrive i t e =
     (if \<not> unat i < length (others t) then Some (Inl Undefined_Behaviour)
      else case next_spurious (log_events [Access i] e) of
             (n, e1) \<Rightarrow> arrive_loop i (node_X (others t ! unat i)) False n t e1)"

subsection \<open>The public operations\<close>

text \<open>\<^verbatim>\<open>Arrive(tid)\<close>, \<^verbatim>\<open>Depart(tid)\<close> and \<^verbatim>\<open>Query()\<close> of the classes without and with
  semi contention handling.\<close>

definition Arrive :: "size_type \<Rightarrow> snzi \<Rightarrow> env \<Rightarrow> (error + snzi \<times> env) option" where
  "Arrive tid t e =
     (case get_leaf_for_thread t tid of
        Inl err \<Rightarrow> Some (Inl err)
      | Inr leaf \<Rightarrow> if leaf = 0 then Some (Inr (root_Arrive t, e)) else node_Arrive leaf t e)"

definition Depart :: "size_type \<Rightarrow> snzi \<Rightarrow> env \<Rightarrow> (error + snzi \<times> env) option" where
  "Depart tid t e =
     (case get_leaf_for_thread t tid of
        Inl err \<Rightarrow> Some (Inl err)
      | Inr leaf \<Rightarrow> if leaf = 0 then Some (Inr (root_Depart t, e)) else node_Depart leaf t e)"

definition Query :: "snzi \<Rightarrow> bool" where
  "Query t = root_Query t"

text \<open>\<^verbatim>\<open>Arrive(tid, cont)\<close> and \<^verbatim>\<open>Depart(tid, cont)\<close> of the class with full contention
  handling; \<^verbatim>\<open>cont\<close> is passed by reference, so the model returns it.\<close>

definition Arrive_full ::
  "size_type \<Rightarrow> contention_status \<Rightarrow> snzi \<Rightarrow> env
    \<Rightarrow> (error + snzi \<times> contention_status \<times> env) option" where
  "Arrive_full tid cont t e =
     (if \<not> use_snzi_in_arrive cont then Some (ArriveDirectly cont t e)
      else map_option (map_sum id (\<lambda>(t', e'). (t', cont, e'))) (Arrive tid t e))"

definition Depart_full ::
  "size_type \<Rightarrow> contention_status \<Rightarrow> snzi \<Rightarrow> env
    \<Rightarrow> (error + snzi \<times> contention_status \<times> env) option" where
  "Depart_full tid cont t e =
     (if \<not> use_snzi_in_depart cont
      then case DepartDirectly cont t of (t', cont') \<Rightarrow> Some (Inr (t', cont', e))
      else map_option (map_sum id (\<lambda>(t', e'). (t', cont, e'))) (Depart tid t e))"

subsection \<open>Example objects\<close>

text \<open>A full-contention tree with \<open>K = 2\<close>, \<open>H = 1\<close>, as its constructor leaves it.\<close>

definition example_tree :: snzi where
  "example_tree =
     \<lparr>kind = Full_Contention, arity = 2, total_nodes = 3, total_leaf_nodes = 2,
      threads_per_leaf = 1, total_threads = 2, root_X = 0,
      others = [node_init, node_init\<lparr>node_parent := Some 0\<rparr>, node_init\<lparr>node_parent := Some 0\<rparr>]\<rparr>"

text \<open>Allocators that always and never succeed, and an environment without spurious
  failures and with an empty trace.\<close>

definition always_alloc :: "size_type \<Rightarrow> bool" where
  "always_alloc n = True"

definition never_alloc :: "size_type \<Rightarrow> bool" where
  "never_alloc n = False"

definition env_init :: env where
  "env_init = \<lparr>spurious = [], trace = []\<rparr>"

text \<open>The object the constructor builds for \<open>K = 2 ^ 33\<close>, \<open>H = 1\<close>, \<open>T = 1\<close>: the product
  \<open>K * K\<close> wraps around to 0.\<close>

definition overflow_tree :: snzi where
  "overflow_tree =
     init_parents 1
       \<lparr>kind = No_Contention, arity = 8589934592, total_nodes = 2147483648,
        total_leaf_nodes = 8589934592, threads_per_leaf = 1, total_threads = 1,
        root_X = 0, others = replicate (unat (2147483648 :: 64 word)) node_init\<rparr>"

text \<open>The object the constructor builds for \<open>K = 2\<close>, \<open>H = 1\<close>, \<open>T = 2 ^ 53 + 1\<close>: the
  conversion of \<open>T\<close> to \<^verbatim>\<open>double\<close> rounds.\<close>

definition inexact_tree :: snzi where
  "inexact_tree =
     init_parents 1
       \<lparr>kind = No_Contention, arity = 2, total_nodes = 3, total_leaf_nodes = 2,
        threads_per_leaf = 4503599627370496, total_threads = 9007199254740993,
        root_X = 0, others = replicate (unat (3 :: 64 word)) node_init\<rparr>"

text \<open>A full-contention tree with \<open>K = 2\<close>, \<open>H = 2\<close>, as its constructor leaves it: the
  nodes 1 and 2 below the root, the leaves 3 and 4 below node 1, the leaves 5 and 6 below
  node 2.\<close>

definition tall_tree :: snzi where
  "tall_tree =
     \<lparr>kind = Full_Contention, arity = 2, total_nodes = 7, total_leaf_nodes = 4,
      threads_per_leaf = 1, total_threads = 4, root_X = 0,
      others = [node_init, node_init\<lparr>node_parent := Some 0\<rparr>, node_init\<lparr>node_parent := Some 0\<rparr>,
                node_init\<lparr>node_parent := Some 1\<rparr>, node_init\<lparr>node_parent := Some 1\<rparr>,
                node_init\<lparr>node_parent := Some 2\<rparr>, node_init\<lparr>node_parent := Some 2\<rparr>]\<rparr>"
subsection \<open>Auxiliary notions for the proofs\<close>

text \<open>First index of level \<open>h\<close> of a perfect \<open>k\<close>-ary tree laid out level by level.\<close>

fun level_start :: "nat \<Rightarrow> nat \<Rightarrow> nat" where
  "level_start k 0 = 0"
| "level_start k (Suc h) = k * level_start k h + 1"

text \<open>
  The shape of a tree of arity \<open>k\<close> and height \<open>h\<close> as the constructor builds it when no
  product overflows: the sizes, a non-zero \<^verbatim>\<open>threads_per_leaf\<close>, and the parent index of
  every node but the unused one in slot 0. Counters and flags are not part of the shape.
\<close>

definition tree_shape :: "nat \<Rightarrow> nat \<Rightarrow> snzi \<Rightarrow> bool" where
  "tree_shape k h t =
     (2 \<le> k \<and> k ^ Suc h \<le> 2 ^ 64
      \<and> unat (arity t) = k
      \<and> unat (total_nodes t) = level_start k (Suc h)
      \<and> unat (total_leaf_nodes t) = k ^ h
      \<and> threads_per_leaf t \<noteq> 0
      \<and> length (others t) = level_start k (Suc h)
      \<and> (\<forall>j. 1 \<le> j \<and> j < level_start k (Suc h)
             \<longrightarrow> node_parent (others t ! j) = Some (word_of_nat ((j - 1) div k))))"

text \<open>The node after the local part of \<^verbatim>\<open>Depart\<close> in a single-threaded run.\<close>

definition departed :: "variant \<Rightarrow> node \<Rightarrow> node" where
  "departed v nd =
     nd\<lparr>node_X := node_X nd - 1,
        node_announce := (if v \<noteq> No_Contention \<and> node_X nd = 1 then False else node_announce nd)\<rparr>"

text \<open>Events that use no element of the node array.\<close>

definition quiet :: "event \<Rightarrow> bool" where
  "quiet ev = (case ev of Access i \<Rightarrow> False | _ \<Rightarrow> True)"

text \<open>The node after \<^verbatim>\<open>announce.store(true)\<close>, where the class has the flag.\<close>

definition announced :: "variant \<Rightarrow> node \<Rightarrow> node" where
  "announced v nd = (if v = No_Contention then nd else nd\<lparr>node_announce := True\<rparr>)"

text \<open>The back-off events of the wait on \<^verbatim>\<open>announce\<close> when the counter stays 0.\<close>

definition announce_events :: "variant \<Rightarrow> node \<Rightarrow> event list" where
  "announce_events v nd =
     (if v \<noteq> No_Contention \<and> node_announce nd
      then fst (backoff_calls DelayAmount exponential_backoff_init) else [])"

text \<open>Writing the counter of one node.\<close>

definition set_X :: "nat \<Rightarrow> counter_type \<Rightarrow> snzi \<Rightarrow> snzi" where
  "set_X i x t = t\<lparr>others := (others t)[i := (others t ! i)\<lparr>node_X := x\<rparr>]\<rparr>"

text \<open>Replacing one node.\<close>

definition set_node :: "nat \<Rightarrow> node \<Rightarrow> snzi \<Rightarrow> snzi" where
  "set_node i nd t = t\<lparr>others := (others t)[i := nd]\<rparr>"

text \<open>The \<^verbatim>\<open>switch(parent)\<close> of the node operations: index 0 is the root object.\<close>

definition parent_Arrive :: "size_type \<Rightarrow> snzi \<Rightarrow> env \<Rightarrow> (error + snzi \<times> env) option" where
  "parent_Arrive p t e = (if p = 0 then Some (Inr (root_Arrive t, e)) else node_Arrive p t e)"

definition parent_Depart :: "size_type \<Rightarrow> snzi \<Rightarrow> env \<Rightarrow> (error + snzi \<times> env) option" where
  "parent_Depart p t e = (if p = 0 then Some (Inr (root_Depart t, e)) else node_Depart p t e)"

text \<open>An event is admissible for an array of \<open>N\<close> nodes when it uses no slot outside \<open>1 \<dots> N - 1\<close>.\<close>

definition access_ok :: "nat \<Rightarrow> event \<Rightarrow> bool" where
  "access_ok N ev = (case ev of Access j \<Rightarrow> 1 \<le> unat j \<and> unat j < N | _ \<Rightarrow> True)"

text \<open>The trace of \<open>e'\<close> continues that of \<open>e\<close> with admissible events only.\<close>

definition extends :: "nat \<Rightarrow> env \<Rightarrow> env \<Rightarrow> bool" where
  "extends N e e' =
     (take (length (trace e)) (trace e') = trace e
      \<and> list_all (access_ok N) (drop (length (trace e)) (trace e')))"

text \<open>\<open>t'\<close> is a state of the tree \<open>t\<close>: the same class, sizes and parent indices.\<close>

definition reshaped :: "snzi \<Rightarrow> snzi \<Rightarrow> bool" where
  "reshaped t t' =
     (kind t' = kind t \<and> arity t' = arity t \<and> total_nodes t' = total_nodes t
      \<and> total_leaf_nodes t' = total_leaf_nodes t \<and> threads_per_leaf t' = threads_per_leaf t
      \<and> total_threads t' = total_threads t
      \<and> map node_parent (others t') = map node_parent (others t))"

text \<open>What a node operation started at index \<open>i\<close> guarantees on a well-shaped tree: it returns normally, in a state of the same tree, with admissible accesses, and leaves the nodes above index \<open>i\<close> alone.\<close>

definition node_post :: "nat \<Rightarrow> nat \<Rightarrow> snzi \<Rightarrow> env \<Rightarrow> (error + snzi \<times> env) option \<Rightarrow> bool" where
  "node_post N i t e r =
     (\<exists>t' e'. r = Some (Inr (t', e')) \<and> reshaped t t' \<and> extends N e e'
              \<and> (\<forall>j. i < j \<longrightarrow> others t' ! j = others t ! j))"

text \<open>
  The node array after an \<^verbatim>\<open>Arrive\<close> started at index \<open>i\<close> of a tree of arity \<open>k\<close> whose
  counters are all 0: on the way up each node announces itself (where the class has the
  flag), and on the way back each counter becomes 1.
\<close>

function raise_path :: "variant \<Rightarrow> nat \<Rightarrow> nat \<Rightarrow> node list \<Rightarrow> node list" where
  "raise_path v k i xs =
     (if i = 0 then xs
      else let ys = raise_path v k ((i - 1) div k) (xs[i := announced v (xs ! i)])
           in ys[i := (ys ! i)\<lparr>node_X := 1\<rparr>])"
  by pat_completeness auto
termination
  by (relation "measure (\<lambda>(v, k, i, xs). i)")
     (auto intro: le_less_trans [OF div_le_dividend])

declare raise_path.simps [simp del]

text \<open>All counters on the path from index \<open>i\<close> up to, but excluding, the root are 1.\<close>

function path_ones :: "nat \<Rightarrow> nat \<Rightarrow> node list \<Rightarrow> bool" where
  "path_ones k i xs =
     (if i = 0 then True else node_X (xs ! i) = 1 \<and> path_ones k ((i - 1) div k) xs)"
  by pat_completeness auto
termination
  by (relation "measure (\<lambda>(k, i, xs). i)")
     (auto intro: le_less_trans [OF div_le_dividend])

declare path_ones.simps [simp del]

text \<open>\<open>n\<close> successive calls of an operation by one thread; the first call that does not
  return normally ends the sequence.\<close>

fun calls ::
  "nat \<Rightarrow> (snzi \<Rightarrow> env \<Rightarrow> (error + snzi \<times> env) option) \<Rightarrow> snzi \<Rightarrow> env
    \<Rightarrow> (error + snzi \<times> env) option" where
  "calls 0 f t e = Some (Inr (t, e))"
| "calls (Suc n) f t e =
     (case f t e of Some (Inr (t', e')) \<Rightarrow> calls n f t' e' | r \<Rightarrow> r)"

fun calls_full ::
  "nat \<Rightarrow> (contention_status \<Rightarrow> snzi \<Rightarrow> env \<Rightarrow> (error + snzi \<times> contention_status \<times> env) option)
    \<Rightarrow> contention_status \<Rightarrow> snzi \<Rightarrow> env \<Rightarrow> (error + snzi \<times> contention_status \<times> env) option" where
  "calls_full 0 f c t e = Some (Inr (t, c, e))"
| "calls_full (Suc n) f c t e =
     (case f c t e of Some (Inr (t', c', e')) \<Rightarrow> calls_full n f c' t' e' | r \<Rightarrow> r)"

section \<open>Properties of stamped\_counter\<close>

lemma low_mask_64: "(0x00000000FFFFFFFF :: 64 word) = mask 32"
  by (simp add: mask_eq_exp_minus_1)

lemma high_mask_64: "(0xFFFFFFFF00000000 :: 64 word) = push_bit 32 (mask 32)"
  by (simp add: mask_eq_exp_minus_1 push_bit_eq_mult)

lemma extract_stamp_pack: "extract_stamp (pack s c) = s"
  unfolding extract_stamp_def pack_def high_mask_64
  by (rule bit_word_eqI) (auto simp add: bit_simps dest: bit_imp_le_length)

lemma extract_counter_pack: "extract_counter (pack s c) = c"
  unfolding extract_counter_def pack_def low_mask_64
  by (rule bit_word_eqI) (auto simp add: bit_simps)

lemma pack_extract: "pack (extract_stamp v) (extract_counter v) = v"
  unfolding extract_stamp_def extract_counter_def pack_def low_mask_64 high_mask_64
  by (rule bit_word_eqI) (auto simp add: bit_simps)

text \<open>
  Claim C10. Packing and extraction are mutually inverse: a stamped counter built from a
  32-bit stamp \<open>s\<close> and a 32-bit counter \<open>c\<close> gives back \<open>s\<close> and \<open>c\<close>; a stamped counter
  built from a 64-bit value \<open>v\<close> gives back \<open>v\<close>, and \<open>v\<close> is the packing of its own
  stamp and counter parts.
\<close>

theorem stamped_counter_pack_extract_inverse:
  "stamp (stamped_counter_of_parts s c) = s
   \<and> counter (stamped_counter_of_parts s c) = c
   \<and> get_value (stamped_counter_of_value v) = v
   \<and> v = pack (extract_stamp v) (extract_counter v)"
  by (simp add: stamp_def counter_def get_value_def stamped_counter_of_parts_def
      stamped_counter_of_value_def extract_stamp_pack extract_counter_pack pack_extract)

section \<open>Properties of the back-off helper\<close>

lemma pause_loop_count:
  "i \<le> delay \<Longrightarrow> pause_loop i delay n = n + (unat delay - unat i)"
proof (induction i delay n rule: pause_loop.induct)
  case (1 i delay n)
  show ?case
  proof (cases "i < delay")
    case True
    then have "i + 1 \<le> delay" by (rule inc_le)
    with 1 True show ?thesis
      by (subst pause_loop.simps) (simp add: word_succ_unat word_less_nat_alt)
  next
    case False
    with 1 have "i = delay" by simp
    then show ?thesis by (subst pause_loop.simps) simp
  qed
qed

lemma backoff_delay_eq: "backoff_delay delay = unat delay"
  by (simp add: backoff_delay_def pause_loop_count)

definition tries_after :: "nat \<Rightarrow> size_type" where
  "tries_after k = 2 ^ min k 5"

lemma backoff_step:
  "backoff \<lparr>tries = tries_after k\<rparr> = (spec_backoff_event 16 k, \<lparr>tries = tries_after (Suc k)\<rparr>)"
proof (cases "k < 5")
  case True
  then consider "k = 0" | "k = 1" | "k = 2" | "k = 3" | "k = 4" by linarith
  then show ?thesis
    by cases (simp_all add: backoff_def tries_after_def spec_backoff_event_def MAX_TRIES_def
        backoff_delay_eq)
next
  case False
  then have "(2::nat) ^ 5 \<le> 2 ^ k" by (intro power_increasing) simp_all
  then have "\<not> (2::nat) ^ k \<le> 16" by simp
  moreover from False have "min k 5 = 5" "min (Suc k) 5 = 5" by simp_all
  ultimately show ?thesis
    by (simp add: backoff_def tries_after_def spec_backoff_event_def MAX_TRIES_def)
qed

lemma backoff_calls_from:
  "backoff_calls n \<lparr>tries = tries_after k\<rparr>
     = (map (spec_backoff_event 16) [k..<k + n], \<lparr>tries = tries_after (k + n)\<rparr>)"
proof (induction n arbitrary: k)
  case 0
  then show ?case by simp
next
  case (Suc n)
  have "[k..<k + Suc n] = k # [Suc k..<Suc k + n]"
    by (simp add: upt_conv_Cons)
  with Suc [of "Suc k"] show ?case
    by (simp add: backoff_step)
qed

text \<open>
  Claim C5 (as amended). On a freshly constructed object, call number \<open>k\<close> of
  \<^verbatim>\<open>backoff()\<close> is a busy loop of \<open>2 ^ k\<close> pause instructions as long as \<open>2 ^ k \<le> 16\<close>
  (the calls spin 1, 2, 4, 8 and 16 times), and every later call yields to the scheduler;
  \<^verbatim>\<open>reset()\<close> sets the delay back to 1, after which the same sequence starts again.
  The cap is \<^verbatim>\<open>MAX_TRIES = 16\<close>, not \<open>2 ^ 16\<close>.
\<close>

theorem backoff_doubles_to_cap_16:
  "fst (backoff_calls n exponential_backoff_init) = map (spec_backoff_event 16) [0..<n]
   \<and> reset b = b\<lparr>tries := 1\<rparr>
   \<and> fst (backoff_calls n (reset \<lparr>tries = x\<rparr>)) = map (spec_backoff_event 16) [0..<n]"
  using backoff_calls_from [of n 0]
  by (simp add: exponential_backoff_init_def tries_after_def reset_def)

text \<open>
  With a cap of \<open>2 ^ 16\<close> the sixth call would spin 32 times; the code yields.
\<close>

theorem backoff_cap_counterexample:
  "fst (backoff_calls 6 exponential_backoff_init) \<noteq> map (spec_backoff_event (2 ^ 16)) [0..<6]"
  using backoff_calls_from [of 6 0]
  by (simp add: exponential_backoff_init_def tries_after_def spec_backoff_event_def upt_conv_Cons)

section \<open>Properties of the root's direct path\<close>

lemma arrive_directly_loop_spurious:
  "num_failures + int n < 2 ^ 31 \<Longrightarrow>
   arrive_directly_loop n x x num_failures bk evs
     = Inr (x + 1, num_failures + int n, evs @ fst (backoff_calls n bk))"
proof (induction n arbitrary: num_failures bk evs)
  case 0
  then show ?case
    by (subst arrive_directly_loop.simps) (simp add: compare_exchange_def)
next
  case (Suc n)
  obtain ev bk' where b: "backoff bk = (ev, bk')" by (cases "backoff bk")
  from Suc.prems have ne: "num_failures \<noteq> 2 ^ 31 - 1" and lt: "num_failures + 1 + int n < 2 ^ 31"
    by simp_all
  have "arrive_directly_loop (Suc n) x x num_failures bk evs
          = arrive_directly_loop n x x (num_failures + 1) bk' (evs @ [ev])"
    using ne b by (subst arrive_directly_loop.simps) (simp add: compare_exchange_def)
  also have "\<dots> = Inr (x + 1, num_failures + 1 + int n, (evs @ [ev]) @ fst (backoff_calls n bk'))"
    using lt by (rule Suc.IH)
  finally show ?case using b by (simp add: split_beta)
qed

lemma ArriveDirectly_eq:
  assumes "next_spurious e = (n, e1)" and "n < 2 ^ 31"
  shows "ArriveDirectly cont t e
           = Inr (t\<lparr>root_X := root_X t + 1\<rparr>,
                  (if 5 \<le> n then cont\<lparr>use_snzi_tree_flag := True\<rparr> else cont),
                  log_events (fst (backoff_calls n exponential_backoff_init)) e1)"
proof -
  from assms(2) have "(0::int) + int n < 2 ^ 31" by simp
  then have "arrive_directly_loop n (root_X t) (root_X t) 0 exponential_backoff_init []
               = Inr (root_X t + 1, 0 + int n, [] @ fst (backoff_calls n exponential_backoff_init))"
    by (rule arrive_directly_loop_spurious)
  with assms(1) show ?thesis
    by (simp add: ArriveDirectly_def MaxContentionNumFailures_def)
qed

text \<open>
  Claim C6. \<^verbatim>\<open>ArriveDirectly\<close> adds 1 to the root counter by a compare-exchange loop
  that backs off after every failure, and it sets \<^verbatim>\<open>use_snzi_tree_flag\<close> exactly when
  the failures of this call number 5 or more (the other two members, and a flag that is
  already set, are left alone). \<^verbatim>\<open>DepartDirectly\<close> subtracts 1 from the root counter
  and, if \<^verbatim>\<open>use_snzi_tree_flag\<close> is set, sets \<^verbatim>\<open>use_snzi_in_arrive\<close> and
  \<^verbatim>\<open>use_snzi_in_depart\<close>. The number \<open>n\<close> of failures is the one the environment
  provides for this loop; it is below \<open>2 ^ 31\<close>, the range of the \<^verbatim>\<open>int\<close> that counts
  them.
\<close>

theorem direct_path_arrive_depart:
  assumes "next_spurious e = (n, e1)" and "n < 2 ^ 31"
  shows "ArriveDirectly cont t e
           = Inr (t\<lparr>root_X := root_X t + 1\<rparr>,
                  cont\<lparr>use_snzi_tree_flag := (use_snzi_tree_flag cont \<or> 5 \<le> n)\<rparr>,
                  e1\<lparr>trace := trace e1 @ fst (backoff_calls n exponential_backoff_init)\<rparr>)
         \<and> DepartDirectly cont t
           = (t\<lparr>root_X := root_X t - 1\<rparr>,
              cont\<lparr>use_snzi_in_depart := (use_snzi_in_depart cont \<or> use_snzi_tree_flag cont),
                   use_snzi_in_arrive := (use_snzi_in_arrive cont \<or> use_snzi_tree_flag cont)\<rparr>)"
proof -
  have "(if 5 \<le> n then cont\<lparr>use_snzi_tree_flag := True\<rparr> else cont)
          = cont\<lparr>use_snzi_tree_flag := (use_snzi_tree_flag cont \<or> 5 \<le> n)\<rparr>"
    by simp
  with ArriveDirectly_eq [OF assms, of cont t] show ?thesis
    by (simp add: DepartDirectly_def log_events_def root_Depart_def)
qed

theorem direct_path_arrive_depart_witness:
  "ArriveDirectly contention_status_init example_tree \<lparr>spurious = [5], trace = []\<rparr>
     = Inr (example_tree\<lparr>root_X := 1\<rparr>,
            contention_status_init\<lparr>use_snzi_tree_flag := True\<rparr>,
            \<lparr>spurious = [], trace = [Spin 1, Spin 2, Spin 4, Spin 8, Spin 16]\<rparr>)"
  using direct_path_arrive_depart [of "\<lparr>spurious = [5], trace = []\<rparr>" 5
      "\<lparr>spurious = [], trace = []\<rparr>" contention_status_init example_tree]
    backoff_calls_from [of 5 0]
  by (simp add: example_tree_def contention_status_init_def exponential_backoff_init_def
      tries_after_def spec_backoff_event_def upt_conv_Cons next_spurious_def)

section \<open>Escalation in the full variant\<close>

text \<open>
  Claim C7. Escalation is one-way: whenever \<^verbatim>\<open>Arrive(tid, cont)\<close> or
  \<^verbatim>\<open>Depart(tid, cont)\<close> of the full variant returns, each of the three members of
  \<^verbatim>\<open>cont\<close> that was true before the call is true after it. (\<^verbatim>\<open>Query()\<close> has no access to
  a \<^verbatim>\<open>contention_status\<close>.)
\<close>

lemma tree_path_keeps_status:
  assumes "map_option (map_sum id (\<lambda>(t', e'). (t', c, e'))) r = Some (Inr (t', c', e'))"
  shows "c' = c"
proof (cases r)
  case None
  with assms show ?thesis by simp
next
  case (Some a)
  with assms show ?thesis by (cases a) auto
qed

theorem escalation_one_way:
  "(Arrive_full tid cont t e = Some (Inr (t', cont', e')) \<longrightarrow>
      (use_snzi_in_arrive cont \<longrightarrow> use_snzi_in_arrive cont')
      \<and> (use_snzi_in_depart cont \<longrightarrow> use_snzi_in_depart cont')
      \<and> (use_snzi_tree_flag cont \<longrightarrow> use_snzi_tree_flag cont'))
   \<and> (Depart_full tid cont t e = Some (Inr (t', cont', e')) \<longrightarrow>
      (use_snzi_in_arrive cont \<longrightarrow> use_snzi_in_arrive cont')
      \<and> (use_snzi_in_depart cont \<longrightarrow> use_snzi_in_depart cont')
      \<and> (use_snzi_tree_flag cont \<longrightarrow> use_snzi_tree_flag cont'))"
proof (intro conjI impI)
  assume a: "Arrive_full tid cont t e = Some (Inr (t', cont', e'))"
  have "cont' = cont \<or> cont' = cont\<lparr>use_snzi_tree_flag := True\<rparr>"
  proof (cases "use_snzi_in_arrive cont")
    case True
    with a have "map_option (map_sum id (\<lambda>(t', e'). (t', cont, e'))) (Arrive tid t e)
                   = Some (Inr (t', cont', e'))"
      by (simp add: Arrive_full_def)
    then have "cont' = cont" by (rule tree_path_keeps_status)
    then show ?thesis by simp
  next
    case False
    with a show ?thesis
      by (auto simp add: Arrive_full_def ArriveDirectly_def
          split: if_splits prod.splits sum.splits)
  qed
  then show "use_snzi_in_arrive cont \<Longrightarrow> use_snzi_in_arrive cont'"
    and "use_snzi_in_depart cont \<Longrightarrow> use_snzi_in_depart cont'"
    and "use_snzi_tree_flag cont \<Longrightarrow> use_snzi_tree_flag cont'"
    by auto
next
  assume d: "Depart_full tid cont t e = Some (Inr (t', cont', e'))"
  have "cont' = cont
        \<or> cont' = cont\<lparr>use_snzi_in_depart := True, use_snzi_in_arrive := True\<rparr>"
  proof (cases "use_snzi_in_depart cont")
    case True
    with d have "map_option (map_sum id (\<lambda>(t', e'). (t', cont, e'))) (Depart tid t e)
                   = Some (Inr (t', cont', e'))"
      by (simp add: Depart_full_def)
    then have "cont' = cont" by (rule tree_path_keeps_status)
    then show ?thesis by simp
  next
    case False
    with d show ?thesis
      by (auto simp add: Depart_full_def DepartDirectly_def split: if_splits)
  qed
  then show "use_snzi_in_arrive cont \<Longrightarrow> use_snzi_in_arrive cont'"
    and "use_snzi_in_depart cont \<Longrightarrow> use_snzi_in_depart cont'"
    and "use_snzi_tree_flag cont \<Longrightarrow> use_snzi_tree_flag cont'"
    by auto
qed

theorem escalation_one_way_witness:
  "Depart_full 0 (contention_status_init\<lparr>use_snzi_tree_flag := True\<rparr>)
       (example_tree\<lparr>root_X := 1\<rparr>) \<lparr>spurious = [], trace = []\<rparr>
     = Some (Inr (example_tree,
                  \<lparr>use_snzi_in_arrive = True, use_snzi_in_depart = True, use_snzi_tree_flag = True\<rparr>,
                  \<lparr>spurious = [], trace = []\<rparr>))
   \<and> use_snzi_tree_flag
        \<lparr>use_snzi_in_arrive = True, use_snzi_in_depart = True, use_snzi_tree_flag = True\<rparr>"
proof -
  have h: "Depart_full 0 (contention_status_init\<lparr>use_snzi_tree_flag := True\<rparr>)
       (example_tree\<lparr>root_X := 1\<rparr>) \<lparr>spurious = [], trace = []\<rparr>
     = Some (Inr (example_tree,
                  \<lparr>use_snzi_in_arrive = True, use_snzi_in_depart = True, use_snzi_tree_flag = True\<rparr>,
                  \<lparr>spurious = [], trace = []\<rparr>))"
    by (simp add: Depart_full_def DepartDirectly_def contention_status_init_def
        example_tree_def root_Depart_def)
  from escalation_one_way [THEN conjunct2, rule_format, OF h] h show ?thesis
    by (simp add: contention_status_init_def)
qed

section \<open>Properties of the index arithmetic\<close>

lemma level_start_geometric: "0 < k \<Longrightarrow> (k - 1) * level_start k h + 1 = k ^ h"
proof (induction h)
  case 0
  then show ?case by simp
next
  case (Suc h)
  then have "k ^ Suc h = k * ((k - 1) * level_start k h + 1)" by simp
  also have "\<dots> = (k - 1) * (k * level_start k h) + k" by (simp add: algebra_simps)
  also have "\<dots> = (k - 1) * (k * level_start k h) + ((k - 1) + 1)" using Suc.prems by simp
  also have "\<dots> = (k - 1) * level_start k (Suc h) + 1" by (simp add: algebra_simps)
  finally show ?case by simp
qed

lemma level_start_div: "2 \<le> k \<Longrightarrow> level_start k h = (k ^ h - 1) div (k - 1)"
proof -
  assume k: "2 \<le> k"
  then have "0 < k" by simp
  then have "(k - 1) * level_start k h + 1 = k ^ h" by (rule level_start_geometric)
  then have "k ^ h - 1 = level_start k h * (k - 1)" by (simp add: mult.commute)
  moreover from k have "0 < k - 1" by simp
  ultimately show ?thesis by simp
qed

lemma level_start_Suc: "level_start k (Suc h) = level_start k h + k ^ h"
  by (induction h) (simp_all add: algebra_simps)

lemma level_start_mono: "level_start k h \<le> level_start k (Suc h)"
  by (subst level_start_Suc) simp

lemma level_start_pos: "0 < level_start k (Suc h)"
  by simp

lemma parent_level:
  assumes "0 < k" and "level_start k (Suc h) \<le> i" and "i < level_start k (Suc (Suc h))"
  shows "level_start k h \<le> (i - 1) div k \<and> (i - 1) div k < level_start k (Suc h)"
proof
  have a: "level_start k (Suc h) = level_start k h * k + 1" by (simp add: mult.commute)
  have b: "level_start k (Suc (Suc h)) = level_start k (Suc h) * k + 1"
    by (simp add: mult.commute)
  from assms(2) a have "level_start k h * k \<le> i - 1" by linarith
  then show "level_start k h \<le> (i - 1) div k"
    using assms(1) by (simp add: less_eq_div_iff_mult_less_eq)
  from assms(2) a have "1 \<le> i" by linarith
  with assms(3) b have "i - 1 < level_start k (Suc h) * k" by linarith
  then show "(i - 1) div k < level_start k (Suc h)"
    using assms(1) by (simp add: div_less_iff_less_mult)
qed

lemma parent_iterate_level:
  assumes "0 < k"
  shows "level_start k h \<le> i \<Longrightarrow> i < level_start k (Suc h)
         \<Longrightarrow> ((\<lambda>j. (j - 1) div k) ^^ h) i = 0"
proof (induction h arbitrary: i)
  case 0
  then show ?case by simp
next
  case (Suc h)
  from parent_level [OF assms Suc.prems]
  have "((\<lambda>j. (j - 1) div k) ^^ h) ((i - 1) div k) = 0"
    by (intro Suc.IH) simp_all
  then show ?case by (simp only: funpow_Suc_right o_apply)
qed

lemma unat_succ_no_wrap:
  fixes i :: "'a::len word"
  assumes "unat i < 2 ^ LENGTH('a) - 1"
  shows "unat (i + 1) = Suc (unat i)"
proof -
  from assms have "unat i + unat (1 :: 'a word) < 2 ^ LENGTH('a)" by simp
  then show ?thesis by (simp add: unat_add_lem [THEN iffD1])
qed

lemma unat_not_max:
  fixes e :: "'a::len word"
  assumes "e \<noteq> - 1"
  shows "unat e < 2 ^ LENGTH('a) - 1"
proof -
  have "unat e \<noteq> unat (- 1 :: 'a word)"
    using assms by (simp add: word_unat_eq_iff)
  moreover have "unat e < 2 ^ LENGTH('a)" by (rule unsigned_less)
  moreover have "unat (- 1 :: 'a word) = 2 ^ LENGTH('a) - 1"
    by (simp add: unsigned_minus_1_eq_mask mask_eq_exp_minus_1)
  ultimately show ?thesis by linarith
qed

lemma unat_small_not_max:
  fixes e :: "64 word"
  assumes "unat e < 64"
  shows "e \<noteq> - 1"
proof
  assume "e = - 1"
  then have "unat e = 2 ^ 64 - 1"
    by (simp add: unsigned_minus_1_eq_mask mask_eq_exp_minus_1)
  with assms show False by simp
qed

lemma pow_int_loop_eq:
  assumes "e \<noteq> - 1"
  shows "unat i \<le> Suc (unat e)
         \<Longrightarrow> pow_int_loop b e i r = Some (r * b ^ (Suc (unat e) - unat i))"
proof (induction "Suc (unat e) - unat i" arbitrary: i r)
  case 0
  then have "\<not> i \<le> e" by (simp add: word_le_nat_alt)
  with 0 show ?case by (subst pow_int_loop.simps) simp
next
  case (Suc m)
  then have le: "i \<le> e" by (simp add: word_le_nat_alt)
  then have "unat i \<le> unat e" by (simp add: word_le_nat_alt)
  with unat_not_max [OF assms] have "unat i < 2 ^ LENGTH(64) - 1" by linarith
  then have s: "unat (i + 1) = Suc (unat i)" by (rule unat_succ_no_wrap)
  with Suc have "pow_int_loop b e (i + 1) (r * b) = Some (r * b * b ^ (Suc (unat e) - unat (i + 1)))"
    by (intro Suc.hyps) simp_all
  moreover from Suc s have "Suc (unat e) - unat i = Suc (Suc (unat e) - unat (i + 1))"
    by simp
  ultimately show ?case using le
    by (subst pow_int_loop.simps) (simp add: mult.assoc)
qed

lemma pow_int_eq: "e \<noteq> - 1 \<Longrightarrow> pow_int b e = Some (b ^ unat e)"
  by (simp add: pow_int_def pow_int_loop_eq)

lemma unat_power_no_wrap:
  fixes b :: "'a::len word"
  assumes "unat b ^ n < 2 ^ LENGTH('a)"
  shows "unat (b ^ n) = unat b ^ n"
proof -
  have "b ^ n = word_of_nat (unat b ^ n)" by simp
  then have "unat (b ^ n) = unat (word_of_nat (unat b ^ n) :: 'a word)" by (rule arg_cong)
  also have "\<dots> = unat b ^ n" using assms by (simp only: unat_of_nat mod_less)
  finally show ?thesis .
qed

lemma height_bound:
  assumes "2 \<le> k" and "k ^ Suc h \<le> (2::nat) ^ 64"
  shows "h < 64"
proof (rule ccontr)
  assume "\<not> h < 64"
  then have "(2::nat) ^ 65 \<le> 2 ^ Suc h" by (intro power_increasing) simp_all
  also from assms(1) have "\<dots> \<le> k ^ Suc h" by (intro power_mono) simp_all
  finally show False using assms(2) by simp
qed

lemma leaves_bound:
  assumes "2 \<le> k" and "k ^ Suc h \<le> (2::nat) ^ 64"
  shows "k ^ h < 2 ^ 64"
proof -
  have "0 < k ^ h" using assms(1) by simp
  then have "k ^ h < 2 * k ^ h" by simp
  also have "\<dots> \<le> k * k ^ h" using assms(1) by (intro mult_right_mono) simp_all
  also have "\<dots> = k ^ Suc h" by simp
  finally show ?thesis using assms(2) by linarith
qed

lemma leaves_count_eq:
  assumes "2 \<le> unat K" and "unat K ^ Suc (unat H) \<le> 2 ^ 64"
  shows "leaves_count K H = Some (K ^ unat H)" and "unat (K ^ unat H) = unat K ^ unat H"
proof -
  from height_bound [OF assms] have "H \<noteq> - 1" by (rule unat_small_not_max)
  then show "leaves_count K H = Some (K ^ unat H)"
    by (simp add: leaves_count_def pow_int_eq)
  from leaves_bound [OF assms] show "unat (K ^ unat H) = unat K ^ unat H"
    by (intro unat_power_no_wrap) simp
qed

lemma nodes_count_eq:
  assumes "2 \<le> unat K" and "unat K ^ Suc (unat H) \<le> 2 ^ 64"
  shows "\<exists>n. nodes_count K H = Some n \<and> unat n = level_start (unat K) (Suc (unat H))"
proof -
  let ?k = "unat K" and ?h = "unat H"
  from height_bound [OF assms] have h: "?h < 64" .
  then have "unat H < 2 ^ LENGTH(64) - 1" by simp
  then have sh: "unat (H + 1) = Suc ?h" by (rule unat_succ_no_wrap)
  with h have "H + 1 \<noteq> - 1"
  proof -
    have "unat (- 1 :: 64 word) = 2 ^ 64 - 1"
      by (simp add: unsigned_minus_1_eq_mask mask_eq_exp_minus_1)
    with sh h have "unat (H + 1) \<noteq> unat (- 1 :: 64 word)" by simp
    then show ?thesis by (metis)
  qed
  then have p: "pow_int K (H + 1) = Some (K ^ Suc ?h)"
    using sh by (simp add: pow_int_eq)
  have pos: "1 \<le> ?k ^ Suc ?h" using assms(1) by simp
  have "K ^ Suc ?h - 1 = (word_of_nat (?k ^ Suc ?h) :: 64 word) - 1" by simp
  also have "\<dots> = word_of_nat (?k ^ Suc ?h - 1)" using pos by (simp del: power_Suc)
  finally have "unat (K ^ Suc ?h - 1) = unat (word_of_nat (?k ^ Suc ?h - 1) :: 64 word)"
    by simp
  also have "\<dots> = ?k ^ Suc ?h - 1"
  proof -
    from assms(2) pos have "?k ^ Suc ?h - 1 < 2 ^ LENGTH(64)" by (simp del: power_Suc)
    then show ?thesis by (simp only: unat_of_nat mod_less)
  qed
  finally have num: "unat (K ^ Suc ?h - 1) = ?k ^ Suc ?h - 1" .
  have "(1 :: 64 word) \<le> K" using assms(1) by (simp add: word_le_nat_alt)
  then have den: "unat (K - 1) = ?k - 1" by (simp add: unat_sub)
  have "unat ((K ^ Suc ?h - 1) div (K - 1)) = (?k ^ Suc ?h - 1) div (?k - 1)"
    by (simp only: unat_div num den)
  also have "\<dots> = level_start ?k (Suc ?h)" using assms(1) by (simp only: level_start_div)
  finally show ?thesis using p by (simp add: nodes_count_def del: power_Suc level_start.simps)
qed

lemma parent_unat:
  assumes "1 \<le> i"
  shows "unat (parent t i) = (unat i - 1) div unat (arity t)"
  using assms by (simp add: parent_def unat_div unat_sub)

lemma parent_iterate_unat:
  assumes "0 < unat (arity t)"
  shows "level_start (unat (arity t)) h \<le> unat i \<Longrightarrow> unat i < level_start (unat (arity t)) (Suc h)
         \<Longrightarrow> unat ((parent t ^^ h) i) = ((\<lambda>j. (j - 1) div unat (arity t)) ^^ h) (unat i)"
proof (induction h arbitrary: i)
  case 0
  then show ?case by simp
next
  case (Suc h)
  have "0 < level_start (unat (arity t)) (Suc h)" by simp
  with Suc.prems(1) have "1 \<le> unat i" by linarith
  then have "1 \<le> i" by (simp add: word_le_nat_alt)
  then have p: "unat (parent t i) = (unat i - 1) div unat (arity t)" by (rule parent_unat)
  from parent_level [OF assms Suc.prems]
  have "unat ((parent t ^^ h) (parent t i))
          = ((\<lambda>j. (j - 1) div unat (arity t)) ^^ h) (unat (parent t i))"
    unfolding p [symmetric] by (intro Suc.IH) simp_all
  then show ?case by (simp only: funpow_Suc_right o_apply p)
qed

text \<open>
  Claim C3 (as amended). For \<open>K \<ge> 2\<close> and \<open>H\<close> with \<open>K ^ (H + 1) \<le> 2 ^ 64\<close>:
  \<^verbatim>\<open>nodes_count(K, H)\<close> returns \<open>(K ^ (H + 1) - 1) / (K - 1)\<close>, \<^verbatim>\<open>leaves_count(K, H)\<close> returns
  \<open>K ^ H\<close>, \<^verbatim>\<open>parent(i)\<close> is \<open>(i - 1) / K\<close> for \<open>i \<ge> 1\<close>, and \<open>H\<close> applications of
  \<^verbatim>\<open>parent\<close> lead from every leaf index (one of the last \<open>K ^ H\<close> indices) to 0.
  Beyond the bound the 64-bit products of \<^verbatim>\<open>pow_int\<close> wrap around.
\<close>

theorem index_arithmetic:
  assumes "2 \<le> unat K" and "unat K ^ (unat H + 1) \<le> 2 ^ 64"
  shows "map_option unat (nodes_count K H)
           = Some ((unat K ^ (unat H + 1) - 1) div (unat K - 1))
         \<and> map_option unat (leaves_count K H) = Some (unat K ^ unat H)
         \<and> (arity t = K \<and> 1 \<le> i \<longrightarrow> unat (parent t i) = (unat i - 1) div unat K)
         \<and> (arity t = K
              \<and> (unat K ^ (unat H + 1) - 1) div (unat K - 1) - unat K ^ unat H \<le> unat i
              \<and> unat i < (unat K ^ (unat H + 1) - 1) div (unat K - 1)
              \<longrightarrow> (parent t ^^ unat H) i = 0)"
proof -
  let ?k = "unat K" and ?h = "unat H"
  from assms have a2: "?k ^ Suc ?h \<le> 2 ^ 64" by simp
  have N: "(?k ^ (?h + 1) - 1) div (?k - 1) = level_start ?k (Suc ?h)"
    using assms(1) by (simp only: level_start_div Suc_eq_plus1)
  have NL: "level_start ?k (Suc ?h) - ?k ^ ?h = level_start ?k ?h"
    by (simp only: level_start_Suc add_diff_cancel_right')
  from nodes_count_eq [OF assms(1) a2]
  have c1: "map_option unat (nodes_count K H) = Some (level_start ?k (Suc ?h))"
    by (auto simp del: level_start.simps)
  from leaves_count_eq [OF assms(1) a2]
  have c2: "map_option unat (leaves_count K H) = Some (?k ^ ?h)"
    by simp
  have c3: "unat (parent t i) = (unat i - 1) div ?k" if "arity t = K" and "1 \<le> i"
    using parent_unat [OF that(2), of t] that(1) by simp
  have c4: "(parent t ^^ ?h) i = 0"
    if "arity t = K" and "level_start ?k ?h \<le> unat i" and "unat i < level_start ?k (Suc ?h)"
  proof -
    from assms(1) that(1) have pos: "0 < unat (arity t)" by simp
    have "unat ((parent t ^^ ?h) i) = ((\<lambda>j. (j - 1) div ?k) ^^ ?h) (unat i)"
      using parent_iterate_unat [OF pos, of ?h i] that by simp
    also have "\<dots> = 0"
      using assms(1) that by (intro parent_iterate_level) simp_all
    finally show ?thesis by (simp add: unat_eq_0)
  qed
  show ?thesis
    unfolding N NL using c1 c2 c3 c4 by (simp del: level_start.simps)
qed

theorem index_arithmetic_witness:
  "map_option unat (nodes_count 2 1) = Some 3
   \<and> map_option unat (leaves_count 2 1) = Some 2
   \<and> unat (parent example_tree 2) = 0
   \<and> (parent example_tree ^^ unat (1 :: 64 word)) 2 = 0"
  using index_arithmetic [of 2 1 example_tree 2]
  by (simp add: example_tree_def)

text \<open>
  With \<open>K = 2 ^ 33\<close> and \<open>H = 1\<close> the product \<open>K * K\<close> wraps around to 0, and
  \<^verbatim>\<open>nodes_count\<close> returns \<open>(2 ^ 64 - 1) / (2 ^ 33 - 1) = 2 ^ 31\<close> instead of \<open>2 ^ 33 + 1\<close>.
\<close>

lemma nodes_count_wrapped: "nodes_count 8589934592 1 = Some 2147483648"
  by code_simp

theorem index_arithmetic_counterexample:
  "map_option unat (nodes_count 8589934592 1)
     \<noteq> Some ((unat (8589934592 :: 64 word) ^ (unat (1 :: 64 word) + 1) - 1)
               div (unat (8589934592 :: 64 word) - 1))"
  by (simp add: nodes_count_wrapped)

section \<open>Properties of the constructor\<close>

lemma init_parents_fields:
  "kind (init_parents i t) = kind t \<and> arity (init_parents i t) = arity t
   \<and> total_nodes (init_parents i t) = total_nodes t
   \<and> total_leaf_nodes (init_parents i t) = total_leaf_nodes t
   \<and> threads_per_leaf (init_parents i t) = threads_per_leaf t
   \<and> total_threads (init_parents i t) = total_threads t
   \<and> root_X (init_parents i t) = root_X t"
proof (induction i t rule: init_parents.induct)
  case (1 i t)
  show ?case
  proof (cases "i < total_nodes t")
    case True
    with 1 show ?thesis by (simp add: init_parents.simps [of i t])
  next
    case False
    then show ?thesis by (simp add: init_parents.simps [of i t])
  qed
qed

lemma init_parents_length: "length (others (init_parents i t)) = length (others t)"
proof (induction i t rule: init_parents.induct)
  case (1 i t)
  show ?case
  proof (cases "i < total_nodes t")
    case True
    with 1 show ?thesis by (subst init_parents.simps) simp
  next
    case False
    then show ?thesis by (subst init_parents.simps) simp
  qed
qed

lemma init_parents_nth:
  "length (others t) = unat (total_nodes t) \<Longrightarrow> j < length (others t) \<Longrightarrow>
   others (init_parents i t) ! j
     = (if unat i \<le> j then (others t ! j)\<lparr>node_parent := Some (parent t (word_of_nat j))\<rparr>
        else others t ! j)"
proof (induction i t rule: init_parents.induct)
  case (1 i t)
  show ?case
  proof (cases "i < total_nodes t")
    case True
    let ?t' = "t\<lparr>others := (others t)[unat i := (others t ! unat i)\<lparr>node_parent := Some (parent t i)\<rparr>]\<rparr>"
    have s: "unat (i + 1) = Suc (unat i)" using True by (rule word_succ_unat)
    have p: "parent ?t' = parent t" by (rule ext) (simp add: parent_def)
    have "others (init_parents (i + 1) ?t') ! j
            = (if unat (i + 1) \<le> j
               then (others ?t' ! j)\<lparr>node_parent := Some (parent ?t' (word_of_nat j))\<rparr>
               else others ?t' ! j)"
      using True "1.prems" by (intro "1.IH") simp_all
    then have "others (init_parents i t) ! j
            = (if Suc (unat i) \<le> j
               then (others ?t' ! j)\<lparr>node_parent := Some (parent t (word_of_nat j))\<rparr>
               else others ?t' ! j)"
      using True unfolding s p by (subst init_parents.simps) simp
    with "1.prems" show ?thesis
      by (cases "j = unat i") (auto simp add: nth_list_update)
  next
    case False
    then have "unat (total_nodes t) \<le> unat i" by (simp add: word_less_nat_alt)
    with "1.prems" have "\<not> unat i \<le> j" by simp
    with False show ?thesis by (subst init_parents.simps) simp
  qed
qed

lemma snzi_ctor_Inr:
  assumes "snzi_ctor v alloc K H T = Some (Inr t)"
  obtains n l r where "nodes_count K H = Some n" and "leaves_count K H = Some l"
    and "ceil_div_double T l = Some r" and "alloc n" and "\<not> K < 2"
    and "t = init_parents 1
               \<lparr>kind = v, arity = K, total_nodes = n, total_leaf_nodes = l,
                threads_per_leaf = (if r = 0 then 1 else r), total_threads = T,
                root_X = 0, others = replicate (unat n) node_init\<rparr>"
  using assms by (auto simp add: snzi_ctor_def split: if_splits option.splits)

lemma parent_of_nat:
  assumes "1 \<le> j" and "j < 2 ^ 64"
  shows "parent t (word_of_nat j) = word_of_nat ((j - 1) div unat (arity t))"
proof -
  have j: "unat (word_of_nat j :: 64 word) = j"
    using assms(2) by (simp add: unat_of_nat)
  then have "(1 :: 64 word) \<le> word_of_nat j" using assms(1) by (simp add: word_le_nat_alt)
  then have "unat (parent t (word_of_nat j)) = (j - 1) div unat (arity t)"
    using parent_unat [of "word_of_nat j" t] j by simp
  moreover have "(j - 1) div unat (arity t) < 2 ^ 64"
    using assms(2) by (meson div_le_dividend le_less_trans less_imp_diff_less)
  then have "unat (word_of_nat ((j - 1) div unat (arity t)) :: 64 word) = (j - 1) div unat (arity t)"
    by (simp add: unat_of_nat)
  ultimately show ?thesis by (simp only: word_unat_eq_iff)
qed

lemma level_start_bound:
  assumes "2 \<le> k" and "k ^ Suc h \<le> (2::nat) ^ 64"
  shows "level_start k (Suc h) < 2 ^ 64"
proof -
  from assms(1) have "0 < k" by simp
  then have "(k - 1) * level_start k (Suc h) + 1 = k ^ Suc h" by (rule level_start_geometric)
  moreover from assms(1) have "1 * level_start k (Suc h) \<le> (k - 1) * level_start k (Suc h)"
    by (intro mult_right_mono) simp_all
  ultimately show ?thesis using assms(2) by linarith
qed

lemma snzi_ctor_shape:
  assumes c: "snzi_ctor v alloc K H T = Some (Inr t)"
    and k: "2 \<le> unat K" and b: "unat K ^ Suc (unat H) \<le> 2 ^ 64"
  shows "tree_shape (unat K) (unat H) t"
    and "kind t = v" and "total_threads t = T" and "root_X t = 0"
    and "\<forall>j < length (others t). node_X (others t ! j) = 0 \<and> \<not> node_announce (others t ! j)"
proof -
  let ?k = "unat K" and ?h = "unat H"
  from c obtain n l r where n: "nodes_count K H = Some n" and l: "leaves_count K H = Some l"
    and t: "t = init_parents 1
               \<lparr>kind = v, arity = K, total_nodes = n, total_leaf_nodes = l,
                threads_per_leaf = (if r = 0 then 1 else r), total_threads = T,
                root_X = 0, others = replicate (unat n) node_init\<rparr>"
    by (rule snzi_ctor_Inr)
  let ?t0 = "\<lparr>kind = v, arity = K, total_nodes = n, total_leaf_nodes = l,
                threads_per_leaf = (if r = 0 then 1 else r), total_threads = T,
                root_X = 0, others = replicate (unat n) node_init\<rparr>"
  from nodes_count_eq [OF k b] n have un: "unat n = level_start ?k (Suc ?h)"
    by (auto simp del: level_start.simps)
  from leaves_count_eq [OF k b] l have ul: "unat l = ?k ^ ?h" by simp
  have f: "kind t = v" "arity t = K" "total_nodes t = n" "total_leaf_nodes t = l"
    "threads_per_leaf t = (if r = 0 then 1 else r)" "total_threads t = T" "root_X t = 0"
    unfolding t using init_parents_fields [of 1 ?t0] by simp_all
  have len: "length (others t) = unat n"
    unfolding t by (simp add: init_parents_length)
  have nth: "others t ! j
               = (if 1 \<le> j then node_init\<lparr>node_parent := Some (parent ?t0 (word_of_nat j))\<rparr>
                  else node_init)" if "j < unat n" for j
    unfolding t using that init_parents_nth [of ?t0 j 1] by simp
  show "kind t = v" "total_threads t = T" "root_X t = 0" by (fact f)+
  show "\<forall>j < length (others t). node_X (others t ! j) = 0 \<and> \<not> node_announce (others t ! j)"
    using len nth by (simp add: node_init_def)
  have "node_parent (others t ! j) = Some (word_of_nat ((j - 1) div ?k))"
    if "1 \<le> j" and "j < level_start ?k (Suc ?h)" for j
  proof -
    from that(2) level_start_bound [OF k b] have "j < 2 ^ 64" by linarith
    with that(1) have "parent ?t0 (word_of_nat j) = word_of_nat ((j - 1) div unat (arity ?t0))"
      by (rule parent_of_nat)
    with that un show ?thesis by (simp add: nth del: level_start.simps)
  qed
  then show "tree_shape ?k ?h t"
    unfolding tree_shape_def using k b f un ul len by (simp del: level_start.simps power_Suc)
qed

text \<open>
  Claim C4 (as amended). For \<open>K \<ge> 2\<close> and \<open>H\<close> with \<open>K ^ (H + 1) \<le> 2 ^ 64\<close>, a
  construction that succeeds allocates exactly \<open>N = (K ^ (H + 1) - 1) / (K - 1)\<close> nodes,
  leaves the root counter and every node counter at 0 and every announce flag false,
  and sets the parent index of each node \<open>i\<close> with \<open>1 \<le> i < N\<close> to \<open>(i - 1) / K\<close>.
\<close>

theorem construction_state:
  assumes "2 \<le> unat K" and "unat K ^ (unat H + 1) \<le> 2 ^ 64"
    and "snzi_ctor v alloc K H T = Some (Inr t)"
  shows "length (others t) = (unat K ^ (unat H + 1) - 1) div (unat K - 1)
         \<and> unat (total_nodes t) = (unat K ^ (unat H + 1) - 1) div (unat K - 1)
         \<and> root_X t = 0
         \<and> (\<forall>j < (unat K ^ (unat H + 1) - 1) div (unat K - 1).
               node_X (others t ! j) = 0 \<and> \<not> node_announce (others t ! j))
         \<and> (\<forall>j. 1 \<le> j \<and> j < (unat K ^ (unat H + 1) - 1) div (unat K - 1)
               \<longrightarrow> node_parent (others t ! j) = Some (word_of_nat ((j - 1) div unat K)))"
proof -
  from assms(2) have b: "unat K ^ Suc (unat H) \<le> 2 ^ 64" by simp
  have N: "(unat K ^ (unat H + 1) - 1) div (unat K - 1) = level_start (unat K) (Suc (unat H))"
    using assms(1) by (simp only: level_start_div Suc_eq_plus1)
  from snzi_ctor_shape [OF assms(3) assms(1) b] show ?thesis
    unfolding N tree_shape_def by (simp del: level_start.simps power_Suc)
qed

lemma ctor_example:
  "snzi_ctor Full_Contention always_alloc 2 1 2 = Some (Inr example_tree)"
  by code_simp

theorem construction_state_witness:
  "length (others example_tree) = 3 \<and> root_X example_tree = 0
   \<and> node_parent (others example_tree ! 2) = Some 0"
  using construction_state [OF _ _ ctor_example]
  by (simp add: example_tree_def node_init_def)

text \<open>
  With \<open>K = 2 ^ 33\<close> and \<open>H = 1\<close> the constructor allocates \<open>2 ^ 31\<close> nodes, not
  \<open>2 ^ 33 + 1\<close>.
\<close>

lemma ctor_overflow:
  "snzi_ctor No_Contention always_alloc 8589934592 1 1 = Some (Inr overflow_tree)"
proof -
  have "leaves_count 8589934592 1 = Some 8589934592" by code_simp
  moreover have "ceil_div_double 1 8589934592 = Some 1" by code_simp
  ultimately show ?thesis
    by (simp add: snzi_ctor_def nodes_count_wrapped overflow_tree_def always_alloc_def)
qed

lemma overflow_tree_fields:
  "total_nodes overflow_tree = 2147483648" "total_leaf_nodes overflow_tree = 8589934592"
  "threads_per_leaf overflow_tree = 1" "length (others overflow_tree) = 2147483648"
  using init_parents_fields by (simp_all add: overflow_tree_def init_parents_length)

theorem construction_state_counterexample:
  "snzi_ctor No_Contention always_alloc 8589934592 1 1 = Some (Inr overflow_tree)
   \<and> length (others overflow_tree)
       \<noteq> (unat (8589934592 :: 64 word) ^ (unat (1 :: 64 word) + 1) - 1)
           div (unat (8589934592 :: 64 word) - 1)"
  by (simp add: ctor_overflow overflow_tree_fields)

section \<open>Properties of the floating-point computation\<close>

lemma round_nearest_even_of_int: "round_nearest_even (of_int z) = z"
  by (simp add: round_nearest_even_def)

lemma round_nearest_even_ge:
  assumes "of_int z \<le> x"
  shows "z \<le> round_nearest_even x"
proof -
  from assms have "z \<le> \<lfloor>x\<rfloor>" by (simp add: le_floor_iff)
  then show ?thesis by (simp add: round_nearest_even_def Let_def)
qed

lemma round_nearest_even_le:
  assumes "x \<le> of_int z"
  shows "round_nearest_even x \<le> z"
proof (cases "x = of_int z")
  case True
  then show ?thesis by (simp add: round_nearest_even_of_int)
next
  case False
  with assms have "x < of_int z" by simp
  then have "\<lfloor>x\<rfloor> < z" by (simp add: floor_less_iff)
  then show ?thesis by (simp add: round_nearest_even_def Let_def)
qed

lemma round_nearest_even_down:
  assumes "of_int z < x" and "round_nearest_even x = z"
  shows "x - of_int z \<le> 1 / 2"
proof -
  have fl: "\<lfloor>x\<rfloor> = z"
  proof (rule ccontr)
    assume "\<lfloor>x\<rfloor> \<noteq> z"
    moreover from assms(1) have "z \<le> \<lfloor>x\<rfloor>" by (simp add: le_floor_iff)
    ultimately have "z < \<lfloor>x\<rfloor>" by simp
    moreover have "\<lfloor>x\<rfloor> \<le> round_nearest_even x"
      by (simp add: round_nearest_even_def Let_def)
    ultimately show False using assms(2) by simp
  qed
  show ?thesis
  proof (rule ccontr)
    assume "\<not> x - of_int z \<le> 1 / 2"
    then have "round_nearest_even x = z + 1"
      using fl by (simp add: round_nearest_even_def Let_def)
    with assms(2) show False by simp
  qed
qed

lemma ilog2_bounds:
  assumes "0 < x"
  shows "2 powi (ilog2 x) \<le> x" and "x < 2 powi (ilog2 x + 1)"
proof -
  obtain p q where pq: "quotient_of x = (p, q)" by (cases "quotient_of x")
  then have q: "0 < q" by (rule quotient_of_denom_pos)
  from pq have x: "x = of_int p / of_int q" by (rule quotient_of_div)
  with assms q have p: "0 < p" by (simp add: zero_less_divide_iff)
  let ?bp = "bitlen p" and ?bq = "bitlen q"
  have bp1: "1 \<le> ?bp" using p by (simp add: bitlen_alt_def)
  have bq1: "1 \<le> ?bq" using q by (simp add: bitlen_alt_def)
  from bitlen_bounds [OF p] have "2 ^ nat (?bp - 1) \<le> p" "p < 2 ^ nat ?bp" by simp_all
  then have "(of_int (2 ^ nat (?bp - 1)) :: rat) \<le> of_int p" "(of_int p :: rat) < of_int (2 ^ nat ?bp)"
    by (simp_all only: of_int_le_iff of_int_less_iff)
  then have Pl: "(2::rat) powi (?bp - 1) \<le> of_int p" and Pu: "(of_int p :: rat) < 2 powi ?bp"
    using bp1 by (simp_all add: power_int_nonneg_exp)
  from bitlen_bounds [OF q] have "2 ^ nat (?bq - 1) \<le> q" "q < 2 ^ nat ?bq" by simp_all
  then have "(of_int (2 ^ nat (?bq - 1)) :: rat) \<le> of_int q" "(of_int q :: rat) < of_int (2 ^ nat ?bq)"
    by (simp_all only: of_int_le_iff of_int_less_iff)
  then have Ql: "(2::rat) powi (?bq - 1) \<le> of_int q" and Qu: "(of_int q :: rat) < 2 powi ?bq"
    using bq1 by (simp_all add: power_int_nonneg_exp)
  have qpos: "(0::rat) < of_int q" using q by simp
  have ppos: "(0::rat) < of_int p" using p by simp
  let ?d = "?bp - ?bq"
  have up: "x < 2 powi (?d + 1)"
  proof -
    have "x * 2 powi (?bq - 1) \<le> x * of_int q"
      using Ql assms by (intro mult_left_mono) simp_all
    also have "\<dots> = of_int p" using x qpos by simp
    also have "\<dots> < 2 powi ?bp" by (rule Pu)
    also have "\<dots> = 2 powi (?d + 1) * 2 powi (?bq - 1)"
      by (simp flip: power_int_add)
    finally show ?thesis by simp
  qed
  have lo: "2 powi (?d - 1) < x"
  proof -
    have "(2::rat) powi (?d - 1) * of_int q < 2 powi (?d - 1) * 2 powi ?bq"
      using Qu by (intro mult_strict_left_mono) simp_all
    also have "\<dots> = 2 powi (?bp - 1)" by (simp flip: power_int_add)
    also have "\<dots> \<le> of_int p" by (rule Pl)
    also have "\<dots> = x * of_int q" using x qpos by simp
    finally show ?thesis using qpos by simp
  qed
  show "2 powi (ilog2 x) \<le> x"
    using lo by (simp add: ilog2_def pq Let_def)
  show "x < 2 powi (ilog2 x + 1)"
    using up by (auto simp add: ilog2_def pq Let_def)
qed

lemma ilog2_unique:
  assumes "0 < x" and "2 powi e \<le> x" and "x < 2 powi (e + 1)"
  shows "ilog2 x = e"
proof (rule antisym)
  have "(2::rat) powi (ilog2 x) < 2 powi (e + 1)"
    using ilog2_bounds(1) [OF assms(1)] assms(3) by simp
  then have "ilog2 x < e + 1"
    by (metis linorder_not_less one_le_numeral power_int_increasing)
  then show "ilog2 x \<le> e" by simp
  have "(2::rat) powi e < 2 powi (ilog2 x + 1)"
    using ilog2_bounds(2) [OF assms(1)] assms(2) by simp
  then have "e < ilog2 x + 1"
    by (metis linorder_not_less one_le_numeral power_int_increasing)
  then show "e \<le> ilog2 x" by simp
qed

lemma ilog2_ge:
  assumes "0 < x" and "2 powi e \<le> x"
  shows "e \<le> ilog2 x"
proof -
  have "(2::rat) powi e < 2 powi (ilog2 x + 1)"
    using ilog2_bounds(2) [of x] assms by simp
  then have "e < ilog2 x + 1"
    by (metis linorder_not_less one_le_numeral power_int_increasing)
  then show ?thesis by simp
qed

lemma ilog2_less:
  assumes "0 < x" and "x < 2 powi e"
  shows "ilog2 x < e"
proof -
  have "(2::rat) powi (ilog2 x) < 2 powi e"
    using ilog2_bounds(1) [of x] assms by simp
  then show ?thesis
    by (metis linorder_not_less one_le_numeral power_int_increasing)
qed

lemma two_powi_add: "(2::rat) powi (a + b) = 2 powi a * 2 powi b"
  by (rule power_int_add) simp

lemma round_to_double_pos:
  assumes "0 < x"
  shows "round_to_double x
           = of_int (round_nearest_even (x / 2 powi (ilog2 x - 52))) * 2 powi (ilog2 x - 52)"
  using assms by (simp add: round_to_double_def Let_def)

lemma scaled_significand:
  assumes "0 < x"
  shows "2 ^ 52 \<le> x / 2 powi (ilog2 x - 52)" and "x / 2 powi (ilog2 x - 52) < 2 ^ 53"
proof -
  let ?e = "ilog2 x - 52"
  have pos: "(0::rat) < 2 powi ?e" by simp
  have "(2::rat) ^ 52 * 2 powi ?e = 2 powi 52 * 2 powi ?e" by simp
  also have "\<dots> = 2 powi (52 + ?e)" by (simp only: two_powi_add)
  also have "\<dots> = 2 powi (ilog2 x)" by simp
  also have "\<dots> \<le> x" using assms by (rule ilog2_bounds)
  finally show "2 ^ 52 \<le> x / 2 powi ?e" using pos by (simp add: pos_le_divide_eq)
  have "ilog2 x + 1 = 53 + ?e" by simp
  moreover have "x < 2 powi (ilog2 x + 1)" using assms by (rule ilog2_bounds)
  ultimately have "x < 2 powi (53 + ?e)" by (simp only:)
  also have "\<dots> = 2 powi 53 * 2 powi ?e" by (simp only: two_powi_add)
  also have "\<dots> = 2 ^ 53 * 2 powi ?e" by simp
  finally show "x / 2 powi ?e < 2 ^ 53" using pos by (simp add: pos_divide_less_eq)
qed

lemma round_to_double_bounds:
  assumes "0 < x"
  shows "2 powi (ilog2 x) \<le> round_to_double x" and "round_to_double x \<le> 2 powi (ilog2 x + 1)"
proof -
  let ?e = "ilog2 x - 52"
  let ?m = "round_nearest_even (x / 2 powi ?e)"
  have pos: "(0::rat) < 2 powi ?e" by simp
  have "of_int (2 ^ 52) \<le> x / 2 powi ?e" using scaled_significand(1) [OF assms] by simp
  then have "2 ^ 52 \<le> ?m" by (rule round_nearest_even_ge)
  then have lo: "(2::rat) ^ 52 \<le> of_int ?m" by (metis of_int_le_iff of_int_numeral of_int_power)
  have "x / 2 powi ?e \<le> of_int (2 ^ 53)" using scaled_significand(2) [OF assms] by simp
  then have "?m \<le> 2 ^ 53" by (rule round_nearest_even_le)
  then have hi: "of_int ?m \<le> (2::rat) ^ 53" by (metis of_int_le_iff of_int_numeral of_int_power)
  have "(2::rat) powi (ilog2 x) = 2 powi (52 + ?e)" by simp
  also have "\<dots> = 2 powi 52 * 2 powi ?e" by (simp only: two_powi_add)
  also have "\<dots> = 2 ^ 52 * 2 powi ?e" by simp
  also have "\<dots> \<le> of_int ?m * 2 powi ?e" using lo pos by (intro mult_right_mono) simp_all
  finally show "2 powi (ilog2 x) \<le> round_to_double x"
    by (simp only: round_to_double_pos [OF assms])
  have "(of_int ?m :: rat) * 2 powi ?e \<le> 2 ^ 53 * 2 powi ?e"
    using hi pos by (intro mult_right_mono) simp_all
  also have "\<dots> = 2 powi 53 * 2 powi ?e" by simp
  also have "\<dots> = 2 powi (53 + ?e)" by (simp only: two_powi_add)
  also have "\<dots> = 2 powi (ilog2 x + 1)" by (simp add: add.commute)
  finally show "round_to_double x \<le> 2 powi (ilog2 x + 1)"
    by (simp only: round_to_double_pos [OF assms])
qed

lemma round_to_double_exact:
  assumes "0 < x" and "x / 2 powi (ilog2 x - 52) = of_int z"
  shows "round_to_double x = x"
proof -
  have "round_to_double x = of_int z * 2 powi (ilog2 x - 52)"
    by (simp only: round_to_double_pos [OF assms(1)] assms(2) round_nearest_even_of_int)
  also have "\<dots> = x" by (simp flip: assms(2))
  finally show ?thesis .
qed

lemma round_to_double_of_nat:
  assumes "n \<le> 2 ^ 53"
  shows "round_to_double (of_nat n) = of_nat n"
proof (cases "n = 0")
  case True
  then show ?thesis by (simp add: round_to_double_def)
next
  case False
  let ?x = "of_nat n :: rat"
  from False have pos: "0 < ?x" by simp
  have "?x \<le> of_nat (2 ^ 53)" using assms by (simp only: of_nat_le_iff)
  then have le: "?x \<le> 2 ^ 53" by simp
  then have "?x < 2 powi 54" by simp
  with pos have k: "ilog2 ?x < 54" by (rule ilog2_less)
  show ?thesis
  proof (cases "ilog2 ?x = 53")
    case True
    with ilog2_bounds(1) [OF pos] have "2 ^ 53 \<le> ?x" by simp
    with le have x: "?x = 2 ^ 53" by simp
    have "?x / 2 powi (ilog2 ?x - 52) = of_int (2 ^ 52)"
      unfolding True by (simp add: x)
    with pos show ?thesis by (rule round_to_double_exact)
  next
    case False
    with k have e: "0 \<le> 52 - ilog2 ?x" by simp
    have "?x / 2 powi (ilog2 ?x - 52) = ?x * 2 powi (52 - ilog2 ?x)"
      by (simp add: power_int_diff)
    also have "\<dots> = ?x * 2 ^ nat (52 - ilog2 ?x)"
      using e by (simp only: power_int_nonneg_exp)
    also have "\<dots> = of_int (int n * 2 ^ nat (52 - ilog2 ?x))" by simp
    finally show ?thesis using pos by (intro round_to_double_exact)
  qed
qed

lemma ceiling_round_quotient_ge:
  assumes L: "1 \<le> L" and LT: "L \<le> T" and T: "T \<le> 2 ^ 53"
  shows "\<lceil>round_to_double (of_nat T / of_nat L)\<rceil> = \<lceil>(of_nat T / of_nat L :: rat)\<rceil>"
proof -
  let ?q = "of_nat T / of_nat L :: rat"
  let ?k = "ilog2 ?q"
  let ?n = "\<lceil>?q\<rceil>"
  have Lpos: "(0::rat) < of_nat L" using L by simp
  have q1: "1 \<le> ?q" using L LT by (simp add: pos_le_divide_eq)
  then have pos: "0 < ?q" by linarith
  have "(of_nat T :: rat) \<le> of_nat (2 ^ 53)" using T by (simp only: of_nat_le_iff)
  then have Tr: "(of_nat T :: rat) \<le> 2 ^ 53" by simp
  have "?q \<le> of_nat T" using L by (simp add: pos_divide_le_eq mult_le_cancel_left1)
  with Tr have qle: "?q \<le> 2 ^ 53" by linarith
  have k0: "0 \<le> ?k" using pos q1 by (intro ilog2_ge) simp_all
  have "?q < 2 powi 54" using qle by simp
  with pos have k54: "?k < 54" by (rule ilog2_less)
  show ?thesis
  proof (cases "?k = 53")
    case True
    with ilog2_bounds(1) [OF pos] have "2 ^ 53 \<le> ?q" by simp
    with qle have "?q = of_nat (2 ^ 53)" by simp
    then show ?thesis by (simp only: round_to_double_of_nat [OF order_refl])
  next
    case False
    with k54 have e: "0 \<le> 52 - ?k" by simp
    let ?si = "2 ^ nat (52 - ?k) :: int"
    have si1: "1 \<le> ?si" by simp
    have sipos: "(0::rat) < of_int ?si" by simp
    have "(2::rat) powi (?k - 52) = 1 / 2 powi (52 - ?k)"
      by (simp add: power_int_diff)
    also have "\<dots> = 1 / 2 ^ nat (52 - ?k)" using e by (simp only: power_int_nonneg_exp)
    also have "\<dots> = 1 / of_int ?si" by simp
    finally have sc: "(2::rat) powi (?k - 52) = 1 / of_int ?si" .
    let ?m = "round_nearest_even (?q * of_int ?si)"
    have rd: "round_to_double ?q = of_int ?m / of_int ?si"
      by (simp only: round_to_double_pos [OF pos] sc) simp
    have upper: "round_to_double ?q \<le> of_int ?n"
    proof -
      have "?q * of_int ?si \<le> of_int ?n * of_int ?si"
        using sipos by (intro mult_right_mono) (simp_all only: le_of_int_ceiling less_imp_le)
      then have "?q * of_int ?si \<le> of_int (?n * ?si)" by simp
      then have "?m \<le> ?n * ?si" by (rule round_nearest_even_le)
      then have "(of_int ?m :: rat) \<le> of_int (?n * ?si)" by (simp only: of_int_le_iff)
      then show ?thesis using sipos by (simp add: rd pos_divide_le_eq)
    qed
    have lower: "of_int ?n - 1 < round_to_double ?q"
    proof -
      have below: "of_int (?n - 1) < ?q" using ceiling_correct [of ?q] by simp
      from below sipos have "of_int (?n - 1) * of_int ?si < ?q * of_int ?si"
        by (rule mult_strict_right_mono)
      then have b2: "of_int ((?n - 1) * ?si) < ?q * of_int ?si"
        by (simp only: of_int_mult)
      then have "(?n - 1) * ?si \<le> ?m" by (intro round_nearest_even_ge) simp
      moreover have "?m \<noteq> (?n - 1) * ?si"
      proof
        assume eq: "?m = (?n - 1) * ?si"
        define d where "d = ?q - of_int (?n - 1)"
        define sr where "sr = (of_int ?si :: rat)"
        define Lr where "Lr = (of_nat L :: rat)"
        define pr where "pr = (of_int (2 ^ nat ?k) :: rat)"
        have dpos: "0 < d" using below by (simp add: d_def)
        have sr1: "1 \<le> sr" unfolding sr_def by simp
        have Lrpos: "0 < Lr" using Lpos by (simp add: Lr_def)
        from round_nearest_even_down [OF b2 eq]
        have half: "d * sr \<le> 1 / 2"
          by (simp add: algebra_simps d_def sr_def)
        have "d * 1 \<le> d * sr" using dpos sr1 by (intro mult_left_mono) simp_all
        with half have dhalf: "d \<le> 1 / 2" by simp
        moreover have "(of_int (?n - 1) :: rat) = of_int ?n - 1" by simp
        ultimately have qn: "?q < of_int ?n" unfolding d_def by linarith
        have "int T - (?n - 1) * int L > 0"
        proof -
          from below Lpos have "of_int (?n - 1) * of_nat L < (of_nat T :: rat)"
            by (simp add: pos_less_divide_eq)
          then have "(of_int ((?n - 1) * int L) :: rat) < of_int (int T)" by simp
          then have "(?n - 1) * int L < int T" by (simp only: of_int_less_iff)
          then show ?thesis by simp
        qed
        then have "1 \<le> int T - (?n - 1) * int L" by simp
        then have "(of_int 1 :: rat) \<le> of_int (int T - (?n - 1) * int L)"
          by (simp only: of_int_le_iff)
        then have "(1::rat) \<le> of_nat T - of_int (?n - 1) * Lr" by (simp add: Lr_def)
        also have "\<dots> = d * Lr"
          using Lrpos by (simp add: d_def Lr_def algebra_simps)
        finally have "1 \<le> d * Lr" .
        then have "1 * sr \<le> (d * Lr) * sr" using sr1 by (intro mult_right_mono) simp_all
        also have "\<dots> = (d * sr) * Lr" by (simp add: mult_ac)
        also have "\<dots> \<le> (1 / 2) * Lr" using half Lrpos by (intro mult_right_mono) simp_all
        finally have twos: "2 * sr \<le> Lr" by simp
        have pk: "(2::rat) powi ?k = pr"
          using k0 by (simp add: power_int_nonneg_exp pr_def)
        have prpos: "0 < pr" by (simp add: pr_def)
        have "?q \<noteq> pr"
        proof
          assume a: "?q = pr"
          have "of_int \<lceil>pr\<rceil> = pr" unfolding pr_def by (simp only: ceiling_of_int)
          then have "of_int \<lceil>?q\<rceil> = ?q" unfolding a .
          with qn show False by simp
        qed
        with ilog2_bounds(1) [OF pos] pk have "pr < ?q" by simp
        then have "pr * Lr < of_nat T"
          using Lpos by (simp add: pos_less_divide_eq Lr_def)
        moreover have "pr * (2 * sr) \<le> pr * Lr"
          using twos prpos by (intro mult_left_mono) simp_all
        moreover have "(2::int) ^ nat ?k * (2 * ?si) = 2 ^ 53"
        proof -
          have "nat ?k + nat (52 - ?k) = 52" using k0 e by simp
          then have "(2::int) ^ nat ?k * ?si = 2 ^ 52" by (simp flip: power_add)
          then show ?thesis by simp
        qed
        then have "pr * (2 * sr) = 2 ^ 53"
          unfolding pr_def sr_def by (metis of_int_mult of_int_numeral of_int_power)
        ultimately have "(2::rat) ^ 53 < of_nat T" by simp
        with Tr show False by simp
      qed
      ultimately have "(?n - 1) * ?si < ?m" by simp
      then have "(of_int ((?n - 1) * ?si) :: rat) < of_int ?m" by (simp only: of_int_less_iff)
      then have "of_int (?n - 1) < (of_int ?m :: rat) / of_int ?si"
        using sipos by (simp add: pos_less_divide_eq)
      then show ?thesis by (simp add: rd)
    qed
    from lower upper show ?thesis by (rule ceiling_unique)
  qed
qed

lemma round_to_double_ge_of_nat:
  assumes "T \<le> 2 ^ 53" and "T \<le> L"
  shows "(of_nat T :: rat) \<le> round_to_double (of_nat L)"
proof (cases "L \<le> 2 ^ 53")
  case True
  then show ?thesis using assms(2) by (simp add: round_to_double_of_nat)
next
  case False
  let ?x = "of_nat L :: rat"
  from False have "2 ^ 53 \<le> L" by simp
  then have "(of_nat (2 ^ 53) :: rat) \<le> of_nat L" by (simp only: of_nat_le_iff)
  then have big: "2 powi 53 \<le> ?x" by simp
  moreover have "(0::rat) < 2 powi 53" by simp
  ultimately have pos: "0 < ?x" by linarith
  from pos big have "53 \<le> ilog2 ?x" by (rule ilog2_ge)
  then have "(2::rat) powi 53 \<le> 2 powi (ilog2 ?x)" by (intro power_int_increasing) simp_all
  also have "\<dots> \<le> round_to_double ?x" using pos by (rule round_to_double_bounds)
  finally have "(2::rat) ^ 53 \<le> round_to_double ?x" by simp
  moreover have "(of_nat T :: rat) \<le> of_nat (2 ^ 53)" using assms(1) by (simp only: of_nat_le_iff)
  ultimately show ?thesis by simp
qed

lemma ceiling_round_quotient_lt:
  assumes T1: "1 \<le> T" and T: "T \<le> 2 ^ 53" and TL: "T < L"
  shows "\<lceil>round_to_double (round_to_double (of_nat T) / round_to_double (of_nat L))\<rceil> = 1"
proof -
  let ?b = "round_to_double (of_nat L)"
  let ?q = "of_nat T / ?b :: rat"
  have a: "round_to_double (of_nat T) = of_nat T" using T by (rule round_to_double_of_nat)
  have Tpos: "(0::rat) < of_nat T" using T1 by simp
  have b: "of_nat T \<le> ?b" using T TL by (intro round_to_double_ge_of_nat) simp_all
  with Tpos have bpos: "0 < ?b" by linarith
  have qpos: "0 < ?q" using Tpos bpos by simp
  have q1: "?q \<le> 1" using b bpos by (simp add: pos_divide_le_eq)
  have lo: "0 < round_to_double ?q"
  proof -
    have "(0::rat) < 2 powi (ilog2 ?q)" by simp
    also have "\<dots> \<le> round_to_double ?q" using qpos by (rule round_to_double_bounds)
    finally show ?thesis .
  qed
  have hi: "round_to_double ?q \<le> 1"
  proof (cases "?q = 1")
    case True
    have "round_to_double (of_nat 1) = (of_nat 1 :: rat)" by (rule round_to_double_of_nat) simp
    then show ?thesis unfolding True by simp
  next
    case False
    with q1 have "?q < 1" by (rule le_neq_trans)
    then have "?q < 2 powi 0" by simp
    with qpos have "ilog2 ?q < 0" by (rule ilog2_less)
    then have "(2::rat) powi (ilog2 ?q + 1) \<le> 2 powi 0"
      by (intro power_int_increasing) simp_all
    moreover have "round_to_double ?q \<le> 2 powi (ilog2 ?q + 1)"
      using qpos by (rule round_to_double_bounds)
    ultimately show ?thesis by simp
  qed
  from lo hi have "\<lceil>round_to_double ?q\<rceil> = 1" by (intro ceiling_unique) simp_all
  then show ?thesis by (simp only: a)
qed

lemma ceiling_double_quotient:
  assumes L1: "1 \<le> L" and T: "T \<le> 2 ^ 53"
  shows "\<lceil>round_to_double (round_to_double (of_nat T) / round_to_double (of_nat L))\<rceil>
           = \<lceil>(of_nat T / of_nat L :: rat)\<rceil>"
proof (cases "T = 0")
  case True
  then show ?thesis by (simp add: round_to_double_def)
next
  case False
  then have T1: "1 \<le> T" by simp
  show ?thesis
  proof (cases "T < L")
    case True
    have "0 < (of_nat T / of_nat L :: rat)" using T1 L1 by simp
    moreover have "(of_nat T / of_nat L :: rat) \<le> 1" using True L1 by (simp add: pos_divide_le_eq)
    ultimately have "\<lceil>(of_nat T / of_nat L :: rat)\<rceil> = 1" by (intro ceiling_unique) simp_all
    with ceiling_round_quotient_lt [OF T1 T True] show ?thesis by simp
  next
    case False
    then have LT: "L \<le> T" by simp
    with T have "L \<le> 2 ^ 53" by linarith
    then have "round_to_double (of_nat L) = (of_nat L :: rat)" by (rule round_to_double_of_nat)
    moreover have "round_to_double (of_nat T) = (of_nat T :: rat)"
      using T by (rule round_to_double_of_nat)
    ultimately show ?thesis
      using ceiling_round_quotient_ge [OF L1 LT T] by simp
  qed
qed

lemma ceiling_quotient_le:
  assumes "1 \<le> L"
  shows "\<lceil>(of_nat T / of_nat L :: rat)\<rceil> \<le> int T"
proof -
  have "(of_nat T / of_nat L :: rat) \<le> of_nat T"
    using assms by (simp add: pos_divide_le_eq mult_le_cancel_left1)
  then show ?thesis by (simp add: ceiling_le_iff)
qed

lemma ceil_div_double_eq:
  assumes l: "l \<noteq> 0" and T: "unat T \<le> 2 ^ 53"
  shows "ceil_div_double T l
           = Some (word_of_int \<lceil>(of_nat (unat T) / of_nat (unat l) :: rat)\<rceil>)"
proof -
  define Tn Ln where "Tn = unat T" and "Ln = unat l"
  have L1: "1 \<le> Ln" using l by (simp add: Ln_def Suc_le_eq unat_gt_0)
  have T': "Tn \<le> 2 ^ 53" using T by (simp add: Tn_def)
  have dT: "double_of_size T = round_to_double (of_nat Tn)"
    by (simp add: double_of_size_def Tn_def)
  have dL: "double_of_size l = round_to_double (of_nat Ln)"
    by (simp add: double_of_size_def Ln_def)
  have c: "\<lceil>round_to_double (double_of_size T / double_of_size l)\<rceil>
             = \<lceil>(of_nat Tn / of_nat Ln :: rat)\<rceil>"
    unfolding dT dL using L1 T' by (rule ceiling_double_quotient)
  from T' have "int Tn \<le> 2 ^ 53" by (metis of_nat_le_iff of_nat_numeral of_nat_power)
  moreover have "(2::int) ^ 53 < 2 ^ 64" by simp
  moreover note ceiling_quotient_le [OF L1, of Tn]
  ultimately have "\<lceil>(of_nat Tn / of_nat Ln :: rat)\<rceil> < 2 ^ 64" by linarith
  then have "ceil_div_double T l = Some (word_of_int \<lceil>(of_nat Tn / of_nat Ln :: rat)\<rceil>)"
    using l by (simp add: ceil_div_double_def size_of_double_def c)
  then show ?thesis by (simp only: Tn_def Ln_def)
qed

section \<open>Properties of the thread-to-leaf assignment\<close>

lemma leaf_of_shape:
  assumes "tree_shape k h t"
  shows "\<exists>leaf. get_leaf_for_thread t tid = Inr leaf
           \<and> unat leaf = level_start k h + (unat tid div unat (threads_per_leaf t)) mod k ^ h"
proof -
  let ?N = "total_nodes t" and ?L = "total_leaf_nodes t"
  let ?m = "(tid div threads_per_leaf t) mod ?L"
  from assms have k: "2 \<le> k" and b: "k ^ Suc h \<le> 2 ^ 64"
    and N: "unat ?N = level_start k (Suc h)" and L: "unat ?L = k ^ h"
    and r: "threads_per_leaf t \<noteq> 0"
    by (simp_all add: tree_shape_def del: level_start.simps power_Suc)
  have Lpos: "0 < k ^ h" using k by simp
  with L have L0: "?L \<noteq> 0" by (metis less_numeral_extra(3) unat_0)
  have NL: "level_start k (Suc h) = level_start k h + k ^ h" by (rule level_start_Suc)
  have "unat ?L \<le> unat ?N" unfolding N L NL by simp
  then have "?L \<le> ?N" by (simp add: word_le_nat_alt)
  then have d: "unat (?N - ?L) = level_start k h"
    by (simp add: unat_sub N L NL del: level_start.simps)
  have m: "unat ?m = (unat tid div unat (threads_per_leaf t)) mod k ^ h"
    by (simp add: unat_mod unat_div L)
  then have "unat ?m < k ^ h" using Lpos by simp
  then have "unat (?N - ?L) + unat ?m < level_start k (Suc h)"
    unfolding d NL by simp
  with level_start_bound [OF k b] have "unat (?N - ?L) + unat ?m < 2 ^ LENGTH(64)" by simp
  then have "unat (?N - ?L + ?m) = unat (?N - ?L) + unat ?m"
    by (simp only: unat_add_lem [THEN iffD1])
  then show ?thesis
    using r L0 by (simp add: get_leaf_for_thread_def d m del: level_start.simps)
qed

lemma unat_word_of_int_small:
  assumes "0 \<le> c" and "c < 2 ^ 64"
  shows "unat (word_of_int c :: 64 word) = nat c"
proof -
  have "uint (word_of_int c :: 64 word) = c"
    using assms by (simp add: uint_word_of_int take_bit_int_eq_self)
  then show ?thesis by (simp only: unat_eq_nat_uint)
qed

lemma snzi_ctor_threads_per_leaf:
  assumes c: "snzi_ctor v alloc K H T = Some (Inr t)"
    and k: "2 \<le> unat K" and b: "unat K ^ Suc (unat H) \<le> 2 ^ 64"
    and T: "unat T \<le> 2 ^ 53"
  shows "unat (threads_per_leaf t)
           = max 1 (nat \<lceil>(of_nat (unat T) / of_nat (unat K ^ unat H) :: rat)\<rceil>)"
proof -
  let ?k = "unat K" and ?h = "unat H"
  let ?c = "\<lceil>(of_nat (unat T) / of_nat (?k ^ ?h) :: rat)\<rceil>"
  from c obtain n l r where l: "leaves_count K H = Some l"
    and r: "ceil_div_double T l = Some r"
    and t: "t = init_parents 1
               \<lparr>kind = v, arity = K, total_nodes = n, total_leaf_nodes = l,
                threads_per_leaf = (if r = 0 then 1 else r), total_threads = T,
                root_X = 0, others = replicate (unat n) node_init\<rparr>"
    by (rule snzi_ctor_Inr)
  from leaves_count_eq [OF k b] l have ul: "unat l = ?k ^ ?h" by simp
  have "0 < ?k ^ ?h" using k by simp
  with ul have l0: "l \<noteq> 0" by (metis less_numeral_extra(3) unat_0)
  from ceil_div_double_eq [OF l0 T] r have rc: "r = word_of_int ?c" by (simp add: ul)
  have "(0::rat) \<le> of_nat (unat T) / of_nat (?k ^ ?h)"
    by (intro divide_nonneg_nonneg of_nat_0_le_iff)
  then have "- 1 < (of_nat (unat T) / of_nat (?k ^ ?h) :: rat)" by linarith
  then have c0: "0 \<le> ?c" by (simp only: zero_le_ceiling)
  have "1 \<le> ?k ^ ?h" using \<open>0 < ?k ^ ?h\<close> by linarith
  then have "?c \<le> int (unat T)" by (rule ceiling_quotient_le)
  also from T have "int (unat T) \<le> 2 ^ 53"
    by (metis of_nat_le_iff of_nat_numeral of_nat_power)
  also have "(2::int) ^ 53 < 2 ^ 64" by simp
  finally have "?c < 2 ^ 64" .
  with c0 have ur: "unat r = nat ?c"
    unfolding rc by (rule unat_word_of_int_small)
  have tpl: "threads_per_leaf t = (if r = 0 then 1 else r)"
    unfolding t using init_parents_fields by simp
  define cn where "cn = nat ?c"
  have ur': "unat r = cn" using ur by (simp only: cn_def)
  have "unat (threads_per_leaf t) = max 1 cn"
  proof (cases "r = 0")
    case True
    with ur' have "cn = 0" by simp
    with True tpl show ?thesis by simp
  next
    case False
    then have "unat r \<noteq> 0" by (simp add: unat_eq_0)
    with False tpl ur' show ?thesis by simp
  qed
  then show ?thesis by (simp only: cn_def)
qed

text \<open>
  Claim C2 (as amended). For \<open>K \<ge> 2\<close>, \<open>H\<close> with \<open>K ^ (H + 1) \<le> 2 ^ 64\<close> and
  \<open>T \<le> 2 ^ 53\<close>, on a tree built by the constructor the leaf index of every thread
  identifier \<open>tid\<close> is \<open>N - L + ((tid / r) mod L)\<close> with \<open>N = (K ^ (H + 1) - 1) / (K - 1)\<close>,
  \<open>L = K ^ H\<close> and \<open>r = max(1, \<lceil>T / L\<rceil>)\<close>, and it is one of the last \<open>L\<close> indices of the
  node array. Beyond the first bound the sizes wrap around; beyond the second the
  conversion of \<open>T\<close> to \<^verbatim>\<open>double\<close> is not exact.
\<close>

theorem leaf_for_thread:
  assumes "2 \<le> unat K" and "unat K ^ (unat H + 1) \<le> 2 ^ 64" and "unat T \<le> 2 ^ 53"
    and "snzi_ctor v alloc K H T = Some (Inr t)"
  shows "\<exists>leaf. get_leaf_for_thread t tid = Inr leaf
           \<and> unat leaf
               = (unat K ^ (unat H + 1) - 1) div (unat K - 1) - unat K ^ unat H
                 + (unat tid div max 1 (nat \<lceil>(of_nat (unat T) / of_nat (unat K ^ unat H) :: rat)\<rceil>))
                   mod unat K ^ unat H
           \<and> (unat K ^ (unat H + 1) - 1) div (unat K - 1) - unat K ^ unat H \<le> unat leaf
           \<and> unat leaf < (unat K ^ (unat H + 1) - 1) div (unat K - 1)"
proof -
  let ?k = "unat K" and ?h = "unat H"
  from assms(2) have b: "?k ^ Suc ?h \<le> 2 ^ 64" by simp
  have N: "(?k ^ (?h + 1) - 1) div (?k - 1) = level_start ?k (Suc ?h)"
    using assms(1) by (simp only: level_start_div Suc_eq_plus1)
  have NL: "level_start ?k (Suc ?h) - ?k ^ ?h = level_start ?k ?h"
    by (simp only: level_start_Suc add_diff_cancel_right')
  have sh: "tree_shape ?k ?h t" using assms(4) assms(1) b by (rule snzi_ctor_shape)
  have r: "unat (threads_per_leaf t)
             = max 1 (nat \<lceil>(of_nat (unat T) / of_nat (?k ^ ?h) :: rat)\<rceil>)"
    using assms(4) assms(1) b assms(3) by (rule snzi_ctor_threads_per_leaf)
  from leaf_of_shape [OF sh, of tid] obtain leaf where
    l: "get_leaf_for_thread t tid = Inr leaf"
    and u: "unat leaf = level_start ?k ?h + (unat tid div unat (threads_per_leaf t)) mod ?k ^ ?h"
    by blast
  have "0 < ?k ^ ?h" using assms(1) by simp
  then have "(unat tid div unat (threads_per_leaf t)) mod ?k ^ ?h < ?k ^ ?h" by simp
  with u have "level_start ?k ?h \<le> unat leaf" and "unat leaf < level_start ?k ?h + ?k ^ ?h"
    by simp_all
  then show ?thesis
    unfolding N NL using l u r by (simp add: level_start_Suc del: level_start.simps)
qed

theorem leaf_for_thread_witness:
  "get_leaf_for_thread example_tree 1 = Inr 2"
  using leaf_for_thread [OF _ _ _ ctor_example, of 1]
  by (auto simp add: example_tree_def get_leaf_for_thread_def)

text \<open>
  With \<open>K = 2 ^ 33\<close>, \<open>H = 1\<close> and \<open>T = 1\<close> the stored sizes are \<open>2 ^ 31\<close> nodes and
  \<open>2 ^ 33\<close> leaves, so thread 0 gets the index \<open>2 ^ 31 - 2 ^ 33\<close> modulo \<open>2 ^ 64\<close>, far
  outside the array, where the formula gives \<open>(2 ^ 33 + 1) - 2 ^ 33 + 0 = 1\<close>.
\<close>

theorem leaf_for_thread_counterexample:
  "snzi_ctor No_Contention always_alloc 8589934592 1 1 = Some (Inr overflow_tree)
   \<and> map_sum id unat (get_leaf_for_thread overflow_tree 0)
       \<noteq> Inr ((unat (8589934592 :: 64 word) ^ (unat (1 :: 64 word) + 1) - 1)
                  div (unat (8589934592 :: 64 word) - 1)
                - unat (8589934592 :: 64 word) ^ unat (1 :: 64 word)
                + (unat (0 :: 64 word)
                   div max 1 (nat \<lceil>(of_nat (unat (1 :: 64 word))
                         / of_nat (unat (8589934592 :: 64 word) ^ unat (1 :: 64 word)) :: rat)\<rceil>))
                  mod unat (8589934592 :: 64 word) ^ unat (1 :: 64 word))"
  by (simp add: ctor_overflow get_leaf_for_thread_def overflow_tree_fields)

text \<open>
  With \<open>K = 2\<close>, \<open>H = 1\<close> and \<open>T = 2 ^ 53 + 1\<close> the conversion \<^verbatim>\<open>(double)T\<close> rounds to
  \<open>2 ^ 53\<close>, so \<^verbatim>\<open>threads_per_leaf\<close> is \<open>2 ^ 52\<close> instead of \<open>\<lceil>T / 2\<rceil> = 2 ^ 52 + 1\<close>, and
  thread \<open>2 ^ 52\<close> is sent to leaf 2 where the formula gives leaf 1.
\<close>

lemma ctor_inexact:
  "snzi_ctor No_Contention always_alloc 2 1 9007199254740993 = Some (Inr inexact_tree)"
proof -
  have "nodes_count 2 1 = Some 3" by code_simp
  moreover have "leaves_count 2 1 = Some 2" by code_simp
  moreover have "ceil_div_double 9007199254740993 2 = Some 4503599627370496" by code_simp
  ultimately show ?thesis by (simp add: snzi_ctor_def inexact_tree_def always_alloc_def)
qed

lemma leaf_for_thread_inexact:
  "snzi_ctor No_Contention always_alloc 2 1 9007199254740993 = Some (Inr inexact_tree)
   \<and> get_leaf_for_thread inexact_tree 4503599627370496 = Inr 2
   \<and> (3 :: nat) - 2 + (4503599627370496 div max 1 (nat \<lceil>(9007199254740993 / 2 :: rat)\<rceil>)) mod 2 = 1"
proof -
  have "\<lceil>(9007199254740993 / 2 :: rat)\<rceil> = 4503599627370497"
    by (rule ceiling_unique) simp_all
  then show ?thesis
    using init_parents_fields
    by (simp add: ctor_inexact get_leaf_for_thread_def inexact_tree_def)
qed

section \<open>Argument validation of the constructor\<close>

lemma snzi_ctor_succeeds:
  assumes k: "2 \<le> unat K" and b: "unat K ^ Suc (unat H) \<le> 2 ^ 64" and T: "unat T \<le> 2 ^ 53"
    and n: "nodes_count K H = Some n" and a: "alloc n"
  shows "\<exists>t. snzi_ctor v alloc K H T = Some (Inr t)"
proof -
  from k have K: "\<not> K < 2" by (simp add: word_less_nat_alt)
  from leaves_count_eq [OF k b]
  have l: "leaves_count K H = Some (K ^ unat H)" and ul: "unat (K ^ unat H) = unat K ^ unat H"
    by simp_all
  have "0 < unat K ^ unat H" using k by simp
  with ul have "K ^ unat H \<noteq> 0" by (metis less_numeral_extra(3) unat_0)
  then have "\<exists>r. ceil_div_double T (K ^ unat H) = Some r"
    using T by (simp add: ceil_div_double_eq)
  with K n l a show ?thesis by (auto simp add: snzi_ctor_def)
qed

text \<open>
  Claim C8. The constructor of each variant throws \<^verbatim>\<open>std::invalid_argument\<close> if and
  only if \<open>K < 2\<close>, whatever \<open>H\<close> and \<open>T\<close> are; the only other exception is
  \<^verbatim>\<open>std::bad_alloc\<close>, thrown only when the allocation of the node array fails; and for
  \<open>K \<ge> 2\<close> the construction succeeds for every \<open>H\<close> with \<open>K ^ (H + 1) \<le> 2 ^ 64\<close> when
  \<open>T \<le> 2 ^ 53\<close> and the allocation succeeds.
\<close>

theorem ctor_invalid_argument_iff:
  "(snzi_ctor v alloc K H T = Some (Inl Invalid_Argument)) = (K < 2)
   \<and> (snzi_ctor v alloc K H T = Some (Inl Bad_Alloc) \<longrightarrow>
        2 \<le> K \<and> (\<exists>n. nodes_count K H = Some n \<and> \<not> alloc n))
   \<and> (2 \<le> unat K \<and> unat K ^ (unat H + 1) \<le> 2 ^ 64 \<and> unat T \<le> 2 ^ 53
        \<and> nodes_count K H = Some n \<and> alloc n
        \<longrightarrow> (\<exists>t. snzi_ctor v alloc K H T = Some (Inr t)))"
proof (intro conjI impI)
  show "(snzi_ctor v alloc K H T = Some (Inl Invalid_Argument)) = (K < 2)"
    by (auto simp add: snzi_ctor_def split: option.splits if_splits)
  show "2 \<le> K" and "\<exists>n. nodes_count K H = Some n \<and> \<not> alloc n"
    if "snzi_ctor v alloc K H T = Some (Inl Bad_Alloc)"
    using that by (auto simp add: snzi_ctor_def split: option.splits if_splits)
  show "\<exists>t. snzi_ctor v alloc K H T = Some (Inr t)"
    if "2 \<le> unat K \<and> unat K ^ (unat H + 1) \<le> 2 ^ 64 \<and> unat T \<le> 2 ^ 53
        \<and> nodes_count K H = Some n \<and> alloc n"
    using that by (intro snzi_ctor_succeeds [of K H T n alloc v]) simp_all
qed

theorem ctor_invalid_argument_iff_witness:
  "snzi_ctor No_Contention never_alloc 2 1 1 = Some (Inl Bad_Alloc)
   \<and> nodes_count 2 1 = Some 3
   \<and> (\<exists>t. snzi_ctor No_Contention always_alloc 2 1 1 = Some (Inr t))"
proof -
  have h: "snzi_ctor No_Contention never_alloc 2 1 1 = Some (Inl Bad_Alloc)"
    by code_simp
  have n: "nodes_count 2 1 = Some 3"
    by code_simp
  have "\<exists>t. snzi_ctor No_Contention always_alloc 2 1 1 = Some (Inr t)"
    using ctor_invalid_argument_iff [of No_Contention always_alloc 2 1 1 3] n
    by (simp add: always_alloc_def)
  with ctor_invalid_argument_iff [of No_Contention never_alloc 2 1 1 3] h n show ?thesis
    by simp
qed

section \<open>Properties of the node operations in a single-threaded run\<close>

lemma depart_loop_weak_eq: "depart_loop_weak n x x = (x - 1, x)"
proof (induction n)
  case 0
  show ?case by (subst depart_loop_weak.simps) (simp add: compare_exchange_def)
next
  case (Suc n)
  then show ?case by (subst depart_loop_weak.simps) (simp add: compare_exchange_def)
qed

lemma depart_loop_strong_eq:
  "depart_loop_strong x ann x = (x - 1, if x = 1 then False else ann, x)"
  by (subst depart_loop_strong.simps) (simp add: compare_exchange_def)

lemma depart_local_eq:
  "depart_local v nd e
     = (departed v nd, node_X nd, if v = No_Contention then snd (next_spurious e) else e)"
  by (cases "next_spurious e")
     (simp add: depart_local_def departed_def depart_loop_weak_eq depart_loop_strong_eq)

lemma trace_next_spurious: "trace (snd (next_spurious e)) = trace e"
  by (simp add: next_spurious_def split: list.splits)

lemma trace_log_events: "trace (log_events evs e) = trace e @ evs"
  by (simp add: log_events_def)

lemma backoff_quiet: "quiet (fst (backoff bk))"
  by (simp add: backoff_def quiet_def)

lemma backoff_calls_quiet: "list_all quiet (fst (backoff_calls n bk))"
proof (induction n arbitrary: bk)
  case 0
  show ?case by simp
next
  case (Suc n)
  obtain ev bk' where b: "backoff bk = (ev, bk')" by (cases "backoff bk")
  with backoff_quiet [of bk] have "quiet ev" by simp
  with Suc [of bk'] b show ?case by (simp add: split_beta)
qed

lemma announce_wait_zero:
  "i \<le> DelayAmount \<Longrightarrow>
   announce_wait i 0 0 bk evs = (0, True, evs @ fst (backoff_calls (DelayAmount - i) bk))"
proof (induction "DelayAmount - i" arbitrary: i bk evs)
  case 0
  then show ?case by (subst announce_wait.simps) simp
next
  case (Suc m)
  obtain ev bk' where b: "backoff bk = (ev, bk')" by (cases "backoff bk")
  from Suc have lt: "i < DelayAmount" and m: "m = DelayAmount - (i + 1)" by simp_all
  from Suc.hyps(2) have d: "DelayAmount - i = Suc (DelayAmount - (i + 1))" using lt by simp
  have "announce_wait (i + 1) 0 0 bk' (evs @ [ev])
          = (0, True, (evs @ [ev]) @ fst (backoff_calls (DelayAmount - (i + 1)) bk'))"
    using m lt by (intro Suc.hyps(1)) simp_all
  then show ?case
    using lt b by (subst announce_wait.simps) (simp add: d split_beta)
qed

lemma announce_events_quiet: "list_all quiet (announce_events v nd)"
  by (simp add: announce_events_def backoff_calls_quiet)

lemma arrive_decide_zero:
  assumes "node_X nd = 0"
  shows "arrive_decide v 0 False nd e
           = (0, True, announced v nd, if v = No_Contention then e
                                       else log_events (announce_events v nd) e)"
  using assms announce_wait_zero [of 0 exponential_backoff_init "[]"]
  by (simp add: arrive_decide_def announced_def announce_events_def)

lemma arrive_decide_skip:
  assumes "oldx \<noteq> 0 \<or> pArrInv"
  shows "arrive_decide v oldx pArrInv nd e = (oldx, False, nd, e)"
  using assms by (auto simp add: arrive_decide_def)


lemma set_node_same [simp]: "set_node i (others t ! i) t = t"
  by (simp add: set_node_def)

lemma arrive_loop_unfold:
  "arrive_loop i oldx pArrInv n t e =
     (case arrive_decide (kind t) oldx pArrInv (others t ! unat i) e of
        (oldx1, doArrive, nd1, e1) \<Rightarrow>
          Option.bind
               (if doArrive
                then case node_parent nd1 of
                       None \<Rightarrow> Some (Inl Undefined_Behaviour)
                     | Some p \<Rightarrow> parent_Arrive p (set_node (unat i) nd1 t) e1
                else Some (Inr (set_node (unat i) nd1 t, e1)))
               (\<lambda>r. case r of
                  Inl err \<Rightarrow> Some (Inl err)
                | Inr (t2, e2) \<Rightarrow>
                    (case compare_exchange (0 < n) (node_X (others t2 ! unat i)) oldx1 (oldx1 + 1) of
                         (ok, x', oldx') \<Rightarrow>
                           if \<not> ok then arrive_loop i oldx' (pArrInv \<or> doArrive) (n - 1) t2 e2
                           else
                             if (pArrInv \<or> doArrive) \<and> oldx' \<noteq> 0
                                then case node_parent (others t2 ! unat i) of
                                       None \<Rightarrow> Some (Inl Undefined_Behaviour)
                                     | Some p \<Rightarrow> parent_Depart p (set_X (unat i) x' t2) e2
                                else Some (Inr (set_X (unat i) x' t2, e2)))))"
  by (subst arrive_loop.simps)
     (simp add: parent_Arrive_def parent_Depart_def node_Arrive_def set_node_def set_X_def Let_def
       split_beta cong: option.case_cong sum.case_cong if_cong)

lemma arrive_loop_after:
  assumes "node_X (others t ! unat i) = 0"
  shows "arrive_loop i 0 True m t e = Some (Inr (set_X (unat i) 1 t, e))"
  using assms
proof (induction m)
  case 0
  then show ?case
    by (subst arrive_loop_unfold) (simp add: arrive_decide_skip compare_exchange_def)
next
  case (Suc m)
  then show ?case
    by (subst arrive_loop_unfold) (simp add: arrive_decide_skip compare_exchange_def)
qed

lemma arrive_loop_nonzero:
  assumes "node_X (others t ! unat i) = x" and "x \<noteq> 0"
  shows "arrive_loop i x False m t e = Some (Inr (set_X (unat i) (x + 1) t, e))"
  using assms
proof (induction m)
  case 0
  then show ?case
    by (subst arrive_loop_unfold) (simp add: arrive_decide_skip compare_exchange_def)
next
  case (Suc m)
  then show ?case
    by (subst arrive_loop_unfold) (simp add: arrive_decide_skip compare_exchange_def)
qed

lemma arrive_loop_zero:
  assumes X0: "node_X (others t ! unat i) = 0"
    and par: "node_parent (others t ! unat i) = Some p"
    and call: "parent_Arrive p (set_node (unat i) (announced (kind t) (others t ! unat i)) t)
                 (if kind t = No_Contention then e
                  else log_events (announce_events (kind t) (others t ! unat i)) e)
               = Some (Inr (t2, e2))"
    and frame: "node_X (others t2 ! unat i) = 0"
  shows "arrive_loop i 0 False n t e = Some (Inr (set_X (unat i) 1 t2, e2))"
proof -
  have p': "node_parent (announced (kind t) (others t ! unat i)) = Some p"
    using par by (simp add: announced_def)
  show ?thesis
  proof (cases n)
    case 0
    then show ?thesis
      using X0 p' call frame
      by (subst arrive_loop_unfold)
         (simp add: arrive_decide_zero compare_exchange_def)
  next
    case (Suc m)
    then show ?thesis
      using X0 p' call frame
      by (subst arrive_loop_unfold)
         (simp add: arrive_decide_zero compare_exchange_def arrive_loop_after)
  qed
qed


lemma extends_refl: "extends N e e"
  by (simp add: extends_def)

lemma extendsI:
  assumes "trace e' = trace e @ evs" and "list_all (access_ok N) evs"
  shows "extends N e e'"
  using assms by (simp add: extends_def)

lemma extendsE:
  assumes "extends N e e'"
  obtains evs where "trace e' = trace e @ evs" and "list_all (access_ok N) evs"
proof
  show "trace e' = trace e @ drop (length (trace e)) (trace e')"
    using assms by (metis append_take_drop_id extends_def)
  show "list_all (access_ok N) (drop (length (trace e)) (trace e'))"
    using assms by (simp add: extends_def)
qed

lemma extends_trans:
  assumes "extends N e e'" and "extends N e' e''"
  shows "extends N e e''"
proof -
  from assms(1) obtain evs where 1: "trace e' = trace e @ evs" "list_all (access_ok N) evs"
    by (rule extendsE)
  from assms(2) obtain evs' where 2: "trace e'' = trace e' @ evs'" "list_all (access_ok N) evs'"
    by (rule extendsE)
  from 1 2 have "trace e'' = trace e @ (evs @ evs')" "list_all (access_ok N) (evs @ evs')"
    by simp_all
  then show ?thesis by (rule extendsI)
qed

lemma quiet_access_ok: "quiet ev \<Longrightarrow> access_ok N ev"
  by (cases ev) (simp_all add: quiet_def access_ok_def)

lemma quiet_all_access_ok: "list_all quiet evs \<Longrightarrow> list_all (access_ok N) evs"
  by (induction evs) (simp_all add: quiet_access_ok)

lemma extends_next_spurious: "extends N e (snd (next_spurious e))"
  by (rule extendsI [where evs = "[]"]) (simp_all add: trace_next_spurious)

lemma extends_access:
  assumes "1 \<le> unat i" and "unat i < N"
  shows "extends N e (log_events [Access i] e)"
  using assms by (intro extendsI [where evs = "[Access i]"]) (simp_all add: trace_log_events access_ok_def)

lemma extends_announce: "extends N e (log_events (announce_events v nd) e)"
  by (rule extendsI [where evs = "announce_events v nd"])
     (simp_all add: trace_log_events quiet_all_access_ok announce_events_quiet)

lemma reshaped_refl: "reshaped t t"
  by (simp add: reshaped_def)

lemma reshaped_trans: "reshaped t t' \<Longrightarrow> reshaped t' t'' \<Longrightarrow> reshaped t t''"
  by (simp add: reshaped_def)

lemma reshaped_root: "reshaped t (root_Arrive t)" "reshaped t (root_Depart t)"
  by (simp_all add: reshaped_def root_Arrive_def root_Depart_def)

lemma reshaped_set_node:
  assumes "node_parent nd = node_parent (others t ! i)"
  shows "reshaped t (set_node i nd t)"
proof -
  have "map node_parent ((others t)[i := nd]) = map node_parent (others t)"
  proof (cases "i < length (others t)")
    case True
    then have "(map node_parent (others t))[i := map node_parent (others t) ! i]
                 = map node_parent (others t)"
      by (simp only: list_update_id)
    with True assms show ?thesis by (simp add: map_update)
  next
    case False
    then have "(others t)[i := nd] = others t" by (intro list_update_beyond) simp
    then show ?thesis by (simp only:)
  qed
  then show ?thesis by (simp add: reshaped_def set_node_def)
qed

lemma reshaped_set_X: "reshaped t (set_X i x t)"
proof -
  have "set_X i x t = set_node i ((others t ! i)\<lparr>node_X := x\<rparr>) t"
    by (simp add: set_X_def set_node_def)
  then show ?thesis by (simp add: reshaped_set_node)
qed

lemma reshaped_length: "reshaped t t' \<Longrightarrow> length (others t') = length (others t)"
  by (metis length_map reshaped_def)

lemma reshaped_parent:
  assumes "reshaped t t'" and "j < length (others t)"
  shows "node_parent (others t' ! j) = node_parent (others t ! j)"
proof -
  from assms have "j < length (others t')" by (simp add: reshaped_length)
  then have "node_parent (others t' ! j) = map node_parent (others t') ! j" by simp
  also have "\<dots> = map node_parent (others t) ! j" using assms(1) by (simp add: reshaped_def)
  also have "\<dots> = node_parent (others t ! j)" using assms(2) by simp
  finally show ?thesis .
qed

lemma tree_shape_reshaped:
  assumes "tree_shape k h t" and "reshaped t t'"
  shows "tree_shape k h t'"
proof -
  from assms(2) have f: "arity t' = arity t" "total_nodes t' = total_nodes t"
    "total_leaf_nodes t' = total_leaf_nodes t" "threads_per_leaf t' = threads_per_leaf t"
    by (simp_all add: reshaped_def)
  from assms have len: "length (others t') = level_start k (Suc h)"
    by (simp add: reshaped_length tree_shape_def del: level_start.simps)
  have "node_parent (others t' ! j) = Some (word_of_nat ((j - 1) div k))"
    if "1 \<le> j" and "j < level_start k (Suc h)" for j
  proof -
    from assms(1) that have "j < length (others t)"
      by (simp add: tree_shape_def del: level_start.simps)
    with assms(2) have "node_parent (others t' ! j) = node_parent (others t ! j)"
      by (rule reshaped_parent)
    with assms(1) that show ?thesis by (simp add: tree_shape_def del: level_start.simps)
  qed
  with assms(1) f len show ?thesis
    by (simp add: tree_shape_def del: level_start.simps power_Suc)
qed

text \<open>What the shape says about one node.\<close>

lemma shape_node:
  assumes sh: "tree_shape k h t" and i1: "1 \<le> unat i" and iN: "unat i < level_start k (Suc h)"
  obtains p where "unat i < length (others t)"
    and "node_parent (others t ! unat i) = Some p"
    and "unat p = (unat i - 1) div k" and "unat p < unat i"
proof -
  let ?p = "word_of_nat ((unat i - 1) div k) :: 64 word"
  from sh have k: "2 \<le> k" and b: "k ^ Suc h \<le> 2 ^ 64"
    and len: "length (others t) = level_start k (Suc h)"
    by (simp_all add: tree_shape_def del: level_start.simps power_Suc)
  from sh i1 iN have par: "node_parent (others t ! unat i) = Some ?p"
    by (simp add: tree_shape_def del: level_start.simps)
  have lt: "(unat i - 1) div k < unat i"
    using i1 k by (meson diff_less div_le_dividend le_less_trans less_numeral_extra(1) less_le_trans)
  have "unat i < 2 ^ 64" using iN level_start_bound [OF k b] by linarith
  with lt have "(unat i - 1) div k < 2 ^ 64" by linarith
  then have up: "unat ?p = (unat i - 1) div k" by (simp add: unat_of_nat)
  show ?thesis
    using iN len par up lt by (intro that [of ?p]) simp_all
qed


lemma node_Arrive_nonzero:
  assumes "unat i < length (others t)" and "node_X (others t ! unat i) \<noteq> 0"
  shows "node_Arrive i t e
           = Some (Inr (set_X (unat i) (node_X (others t ! unat i) + 1) t,
                        snd (next_spurious (log_events [Access i] e))))"
  using assms
  by (cases "next_spurious (log_events [Access i] e)")
     (simp add: node_Arrive_def arrive_loop_nonzero)

lemma node_Arrive_zero:
  assumes "unat i < length (others t)" and "node_X (others t ! unat i) = 0"
    and "node_parent (others t ! unat i) = Some p"
    and "parent_Arrive p (set_node (unat i) (announced (kind t) (others t ! unat i)) t)
           (if kind t = No_Contention then snd (next_spurious (log_events [Access i] e))
            else log_events (announce_events (kind t) (others t ! unat i))
                   (snd (next_spurious (log_events [Access i] e))))
         = Some (Inr (t2, e2))"
    and "node_X (others t2 ! unat i) = 0"
  shows "node_Arrive i t e = Some (Inr (set_X (unat i) 1 t2, e2))"
proof -
  obtain n e1 where ns: "next_spurious (log_events [Access i] e) = (n, e1)"
    by (cases "next_spurious (log_events [Access i] e)")
  with assms(4) have call:
    "parent_Arrive p (set_node (unat i) (announced (kind t) (others t ! unat i)) t)
           (if kind t = No_Contention then e1
            else log_events (announce_events (kind t) (others t ! unat i)) e1)
         = Some (Inr (t2, e2))"
    by (simp only: snd_conv)
  have "arrive_loop i 0 False n t e1 = Some (Inr (set_X (unat i) 1 t2, e2))"
    using assms(2) assms(3) call assms(5) by (rule arrive_loop_zero)
  with assms(1,2) ns show ?thesis by (simp add: node_Arrive_def)
qed

lemma departed_simps [simp]:
  "node_parent (departed v nd) = node_parent nd"
  "node_X (departed v nd) = node_X nd - 1"
  by (simp_all add: departed_def)

lemma announced_simps [simp]:
  "node_parent (announced v nd) = node_parent nd"
  "node_X (announced v nd) = node_X nd"
  by (simp_all add: announced_def)

lemma node_Depart_unfold:
  assumes "unat i < length (others t)"
  shows "node_Depart i t e
           = (if node_X (others t ! unat i) = 1
              then case node_parent (others t ! unat i) of
                     None \<Rightarrow> Some (Inl Undefined_Behaviour)
                   | Some p \<Rightarrow>
                       parent_Depart p (set_node (unat i) (departed (kind t) (others t ! unat i)) t)
                         (if kind t = No_Contention then snd (next_spurious (log_events [Access i] e))
                          else log_events [Access i] e)
              else Some (Inr (set_node (unat i) (departed (kind t) (others t ! unat i)) t,
                              if kind t = No_Contention then snd (next_spurious (log_events [Access i] e))
                              else log_events [Access i] e)))"
  using assms
  by (subst node_Depart.simps)
     (simp add: depart_local_eq parent_Depart_def set_node_def Let_def split: option.splits)


lemma node_postI:
  assumes "r = Some (Inr (t', e'))" and "reshaped t t'" and "extends N e e'"
    and "\<And>j. i < j \<Longrightarrow> others t' ! j = others t ! j"
  shows "node_post N i t e r"
  using assms unfolding node_post_def by blast

lemma node_postE:
  assumes "node_post N i t e r"
  obtains t' e' where "r = Some (Inr (t', e'))" and "reshaped t t'" and "extends N e e'"
    and "\<forall>j. i < j \<longrightarrow> others t' ! j = others t ! j"
  using assms unfolding node_post_def by blast

lemma others_set_node [simp]:
  "others (set_node i nd t) ! j = (if j = i \<and> i < length (others t) then nd else others t ! j)"
proof (cases "i < length (others t)")
  case True
  then show ?thesis by (simp add: set_node_def nth_list_update)
next
  case False
  then have "(others t)[i := nd] = others t" by (intro list_update_beyond) simp
  with False show ?thesis by (simp add: set_node_def)
qed

lemma others_set_X_other [simp]: "j \<noteq> i \<Longrightarrow> others (set_X i x t) ! j = others t ! j"
  by (simp add: set_X_def)

lemma others_root [simp]:
  "others (root_Arrive t) = others t" "others (root_Depart t) = others t"
  by (simp_all add: root_Arrive_def root_Depart_def)

lemma kind_set_node [simp]: "kind (set_node i nd t) = kind t"
  by (simp add: set_node_def)

lemma extends_entry:
  assumes "1 \<le> unat i" and "unat i < N"
  shows "extends N e (if v = No_Contention then snd (next_spurious (log_events [Access i] e))
                      else log_events [Access i] e)"
  using extends_access [OF assms, of e] extends_next_spurious [of N "log_events [Access i] e"]
  by (auto intro: extends_trans)

lemma node_Depart_total:
  assumes "tree_shape k h t" and "1 \<le> unat i" and "unat i < level_start k (Suc h)"
  shows "node_post (level_start k (Suc h)) (unat i) t e (node_Depart i t e)"
  using assms
proof (induction "unat i" arbitrary: i t e rule: less_induct)
  case less
  let ?N = "level_start k (Suc h)"
  let ?nd = "others t ! unat i"
  let ?t1 = "set_node (unat i) (departed (kind t) ?nd) t"
  let ?e1 = "if kind t = No_Contention then snd (next_spurious (log_events [Access i] e))
             else log_events [Access i] e"
  from less.prems obtain p where len: "unat i < length (others t)"
    and par: "node_parent ?nd = Some p"
    and up: "unat p = (unat i - 1) div k" and lt: "unat p < unat i"
    by (rule shape_node)
  have r1: "reshaped t ?t1" by (intro reshaped_set_node) simp
  have sh1: "tree_shape k h ?t1" using less.prems(1) r1 by (rule tree_shape_reshaped)
  have x1: "extends ?N e ?e1" using less.prems(2,3) by (rule extends_entry)
  show ?case
  proof (cases "node_X ?nd = 1")
    case False
    then have "node_Depart i t e = Some (Inr (?t1, ?e1))"
      using len by (simp add: node_Depart_unfold)
    then show ?thesis using r1 x1 by (rule node_postI) simp
  next
    case True
    then have eq: "node_Depart i t e = parent_Depart p ?t1 ?e1"
      using len par by (simp add: node_Depart_unfold)
    show ?thesis
    proof (cases "p = 0")
      case True
      then have "node_Depart i t e = Some (Inr (root_Depart ?t1, ?e1))"
        using eq by (simp add: parent_Depart_def)
      moreover have "reshaped t (root_Depart ?t1)"
        using r1 reshaped_root(2) by (rule reshaped_trans)
      ultimately show ?thesis using x1 by (rule node_postI) simp
    next
      case False
      then have p1: "1 \<le> unat p" by (simp add: Suc_le_eq unat_gt_0)
      from lt less.prems(3) have pN: "unat p < ?N" by linarith
      have "node_post ?N (unat p) ?t1 ?e1 (node_Depart p ?t1 ?e1)"
        using lt sh1 p1 pN by (rule less.hyps)
      then obtain t2 e2 where res: "node_Depart p ?t1 ?e1 = Some (Inr (t2, e2))"
        and r2: "reshaped ?t1 t2" and x2: "extends ?N ?e1 e2"
        and fr: "\<forall>j. unat p < j \<longrightarrow> others t2 ! j = others ?t1 ! j"
        by (rule node_postE)
      from eq False res have "node_Depart i t e = Some (Inr (t2, e2))"
        by (simp add: parent_Depart_def)
      moreover from r1 r2 have "reshaped t t2" by (rule reshaped_trans)
      moreover from x1 x2 have "extends ?N e e2" by (rule extends_trans)
      moreover have "others t2 ! j = others t ! j" if "unat i < j" for j
        using that lt fr [rule_format, of j] by simp
      ultimately show ?thesis by (rule node_postI)
    qed
  qed
qed

lemma announce_wait_props:
  assumes "announce_wait i x oldx bk evs = (o', d, evs')"
  shows "(o' = oldx \<or> o' = x) \<and> (\<exists>ws. evs' = evs @ ws \<and> list_all quiet ws)"
  using assms
proof (induction i x oldx bk evs rule: announce_wait.induct)
  case (1 i x oldx bk evs)
  show ?case
  proof (cases "i < DelayAmount \<and> x = 0")
    case True
    obtain ev bk' where b: "backoff bk = (ev, bk')" by (cases "backoff bk")
    from "1.prems" True b have r: "announce_wait (i + 1) x x bk' (evs @ [ev]) = (o', d, evs')"
      by (subst (asm) announce_wait.simps) simp
    from True b have "(o' = x \<or> o' = x) \<and> (\<exists>ws. evs' = (evs @ [ev]) @ ws \<and> list_all quiet ws)"
      using r by (intro "1.IH") simp_all
    then obtain ws where "o' = x" and "evs' = evs @ (ev # ws)" and "list_all quiet ws" by auto
    moreover from backoff_quiet [of bk] b have "quiet ev" by simp
    ultimately show ?thesis by (intro conjI exI [of _ "ev # ws"]) simp_all
  next
    case False
    with "1.prems" have "(o', d, evs') = (if i < DelayAmount then (x, False, evs) else (oldx, True, evs))"
      by (subst (asm) announce_wait.simps) (auto split: if_splits)
    then show ?thesis by (auto split: if_splits)
  qed
qed

lemma extends_quiet: "list_all quiet evs \<Longrightarrow> extends N e (log_events evs e)"
  by (rule extendsI [where evs = evs]) (simp_all add: trace_log_events quiet_all_access_ok)

lemma arrive_decide_props:
  assumes "arrive_decide v oldx pArrInv nd e = (oldx1, doArrive, nd1, e1)"
  shows "node_X nd1 = node_X nd" and "node_parent nd1 = node_parent nd"
    and "oldx1 = oldx \<or> oldx1 = node_X nd" and "extends N e e1"
proof -
  show "node_X nd1 = node_X nd" "node_parent nd1 = node_parent nd"
    using assms by (auto simp add: arrive_decide_def split: if_splits prod.splits)
  show "oldx1 = oldx \<or> oldx1 = node_X nd"
    using assms by (auto simp add: arrive_decide_def split: if_splits prod.splits dest: announce_wait_props)
  show "extends N e e1"
    using assms
    by (auto simp add: arrive_decide_def extends_refl log_events_def [of "[]"] split: if_splits prod.splits
        dest!: announce_wait_props intro: extends_quiet)
qed


lemma node_post_compose:
  assumes "reshaped t t1" and "extends N e e1"
    and "\<forall>j. i < j \<longrightarrow> others t1 ! j = others t ! j"
    and "node_post N i' t1 e1 r" and "i' \<le> i"
  shows "node_post N i t e r"
proof -
  from assms(4) obtain t' e' where res: "r = Some (Inr (t', e'))" and r: "reshaped t1 t'"
    and x: "extends N e1 e'" and fr: "\<forall>j. i' < j \<longrightarrow> others t' ! j = others t1 ! j"
    by (rule node_postE)
  from assms(1) r have "reshaped t t'" by (rule reshaped_trans)
  moreover from assms(2) x have "extends N e e'" by (rule extends_trans)
  moreover have "others t' ! j = others t ! j" if "i < j" for j
    using that assms(3,5) fr by simp
  ultimately show ?thesis using res by (intro node_postI)
qed

lemma parent_Depart_post:
  assumes "tree_shape k h t" and "unat p < level_start k (Suc h)"
  shows "node_post (level_start k (Suc h)) (unat p) t e (parent_Depart p t e)"
proof (cases "p = 0")
  case True
  then have "parent_Depart p t e = Some (Inr (root_Depart t, e))" by (simp add: parent_Depart_def)
  then show ?thesis using reshaped_root(2) extends_refl by (rule node_postI) simp
next
  case False
  then have "1 \<le> unat p" by (simp add: Suc_le_eq unat_gt_0)
  with assms(1) have "node_post (level_start k (Suc h)) (unat p) t e (node_Depart p t e)"
    using assms(2) by (rule node_Depart_total)
  with False show ?thesis by (simp add: parent_Depart_def)
qed

lemma arrive_loop_total:
  assumes "tree_shape k h t" and "1 \<le> unat i" and "unat i < level_start k (Suc h)"
  shows "node_post (level_start k (Suc h)) (unat i) t e (arrive_loop i oldx pArrInv n t e)"
  using assms
proof (induction "unat i" arbitrary: i t e oldx pArrInv n rule: less_induct)
  case outer: less
  let ?N = "level_start k (Suc h)"
  have "node_post ?N (unat i) t e (arrive_loop i oldx pArrInv n t e)"
    if "tree_shape k h t" for t e oldx pArrInv n
    using that
  proof (induction "2 * n + (if node_X (others t ! unat i) = oldx then 0 else 1 :: nat)"
      arbitrary: t e oldx pArrInv n rule: less_induct)
    case inner: less
    let ?nd = "others t ! unat i"
    from inner.prems outer.prems(2,3) obtain p where len: "unat i < length (others t)"
      and par: "node_parent ?nd = Some p"
      and up: "unat p = (unat i - 1) div k" and lt: "unat p < unat i"
      by (rule shape_node)
    from lt outer.prems(3) have pN: "unat p < ?N" by linarith
    obtain oldx1 doArrive nd1 e1 where
      d: "arrive_decide (kind t) oldx pArrInv ?nd e = (oldx1, doArrive, nd1, e1)"
      by (cases "arrive_decide (kind t) oldx pArrInv ?nd e")
    note dp = arrive_decide_props [OF d]
    let ?t1 = "set_node (unat i) nd1 t"
    have par1: "node_parent nd1 = Some p" using dp(2) par by simp
    have r1: "reshaped t ?t1" by (intro reshaped_set_node) (simp add: dp(2))
    have sh1: "tree_shape k h ?t1" using inner.prems r1 by (rule tree_shape_reshaped)
    have x1: "extends ?N e e1" by (rule dp(4))
    have n1: "others ?t1 ! unat i = nd1" using len by simp
    let ?first = "if doArrive
                  then case node_parent nd1 of
                         None \<Rightarrow> Some (Inl Undefined_Behaviour)
                       | Some p \<Rightarrow> parent_Arrive p ?t1 e1
                  else Some (Inr (?t1, e1))"
    have "node_post ?N (unat p) ?t1 e1 ?first"
    proof (cases doArrive)
      case False
      then have "?first = Some (Inr (?t1, e1))" by simp
      then show ?thesis using reshaped_refl extends_refl by (rule node_postI) simp
    next
      case True
      with par1 have fp: "?first = parent_Arrive p ?t1 e1" by simp
      show ?thesis
      proof (cases "p = 0")
        case True
        with fp have "?first = Some (Inr (root_Arrive ?t1, e1))" by (simp add: parent_Arrive_def)
        then show ?thesis using reshaped_root(1) extends_refl by (rule node_postI) simp
      next
        case False
        then have p1: "1 \<le> unat p" by (simp add: Suc_le_eq unat_gt_0)
        obtain np e2 where ns: "next_spurious (log_events [Access p] e1) = (np, e2)"
          by (cases "next_spurious (log_events [Access p] e1)")
        from sh1 pN have lenp: "unat p < length (others ?t1)"
          by (simp add: tree_shape_def del: level_start.simps)
        from fp False lenp ns have fe: "?first
            = arrive_loop p (node_X (others ?t1 ! unat p)) False np ?t1 e2"
          by (simp add: parent_Arrive_def node_Arrive_def)
        have "extends ?N e1 (snd (next_spurious (log_events [Access p] e1)))"
          using extends_access [OF p1 pN, of e1] extends_next_spurious by (rule extends_trans)
        with ns have x12: "extends ?N e1 e2" by simp
        have "node_post ?N (unat p) ?t1 e2
                (arrive_loop p (node_X (others ?t1 ! unat p)) False np ?t1 e2)"
          using lt sh1 p1 pN by (rule outer.hyps)
        then have "node_post ?N (unat p) ?t1 e1
                (arrive_loop p (node_X (others ?t1 ! unat p)) False np ?t1 e2)"
          by (intro node_post_compose [OF reshaped_refl x12, where i' = "unat p"]) simp_all
        with fe show ?thesis by (simp only:)
      qed
    qed
    then obtain t2 e2 where f: "?first = Some (Inr (t2, e2))"
      and r2: "reshaped ?t1 t2" and x2: "extends ?N e1 e2"
      and fr: "\<forall>j. unat p < j \<longrightarrow> others t2 ! j = others ?t1 ! j"
      by (rule node_postE)
    have n2: "others t2 ! unat i = nd1" using fr lt n1 by simp
    from r1 r2 have rt2: "reshaped t t2" by (rule reshaped_trans)
    from x1 x2 have xt2: "extends ?N e e2" by (rule extends_trans)
    from inner.prems rt2 have sh2: "tree_shape k h t2" by (rule tree_shape_reshaped)
    have fr2: "\<forall>j. unat i < j \<longrightarrow> others t2 ! j = others t ! j"
      using lt fr by simp
    have unf: "arrive_loop i oldx pArrInv n t e
        = (case compare_exchange (0 < n) (node_X nd1) oldx1 (oldx1 + 1) of
             (ok, x', oldx') \<Rightarrow>
               if \<not> ok then arrive_loop i oldx' (pArrInv \<or> doArrive) (n - 1) t2 e2
               else if (pArrInv \<or> doArrive) \<and> oldx' \<noteq> 0
                    then parent_Depart p (set_X (unat i) x' t2) e2
                    else Some (Inr (set_X (unat i) x' t2, e2)))"
      by (subst arrive_loop_unfold) (simp only: d prod.case f, simp add: n2 par1 split_beta cong: if_cong)
    show ?case
    proof (cases "0 < n \<or> node_X nd1 \<noteq> oldx1")
      case True
      then have eq: "arrive_loop i oldx pArrInv n t e
                   = arrive_loop i (node_X nd1) (pArrInv \<or> doArrive) (n - 1) t2 e2"
        using unf by (auto simp add: compare_exchange_def)
      have "node_post ?N (unat i) t2 e2
              (arrive_loop i (node_X nd1) (pArrInv \<or> doArrive) (n - 1) t2 e2)"
      proof (rule inner.hyps)
        show "2 * (n - 1) + (if node_X (others t2 ! unat i) = node_X nd1 then 0 else 1)
                < 2 * n + (if node_X ?nd = oldx then 0 else 1)"
          using True dp(1,3) n2 by auto
        show "tree_shape k h t2" by (rule sh2)
      qed
      with rt2 xt2 fr2 have "node_post ?N (unat i) t e
              (arrive_loop i (node_X nd1) (pArrInv \<or> doArrive) (n - 1) t2 e2)"
        by (rule node_post_compose) simp
      with eq show ?thesis by (simp only:)
    next
      case False
      let ?t3 = "set_X (unat i) (oldx1 + 1) t2"
      from False have ok: "compare_exchange (0 < n) (node_X nd1) oldx1 (oldx1 + 1)
                             = (True, oldx1 + 1, oldx1)"
        by (simp add: compare_exchange_def)
      have r3: "reshaped t ?t3" using rt2 reshaped_set_X by (rule reshaped_trans)
      have fr3: "\<forall>j. unat i < j \<longrightarrow> others ?t3 ! j = others t ! j"
        using fr2 by simp
      show ?thesis
      proof (cases "(pArrInv \<or> doArrive) \<and> oldx1 \<noteq> 0")
        case True
        with unf ok have eq: "arrive_loop i oldx pArrInv n t e = parent_Depart p ?t3 e2"
          by simp
        from inner.prems r3 have "tree_shape k h ?t3" by (rule tree_shape_reshaped)
        then have "node_post ?N (unat p) ?t3 e2 (parent_Depart p ?t3 e2)"
          using pN by (rule parent_Depart_post)
        with r3 xt2 fr3 have "node_post ?N (unat i) t e (parent_Depart p ?t3 e2)"
          by (rule node_post_compose) (use lt in simp)
        with eq show ?thesis by (simp only:)
      next
        case False
        with unf ok have "arrive_loop i oldx pArrInv n t e = Some (Inr (?t3, e2))"
          by simp
        then show ?thesis using r3 xt2 by (rule node_postI) (use fr3 in simp)
      qed
    qed
  qed
  from this [OF outer.prems(1)] show ?case .
qed

lemma node_Arrive_total:
  assumes "tree_shape k h t" and "1 \<le> unat i" and "unat i < level_start k (Suc h)"
  shows "node_post (level_start k (Suc h)) (unat i) t e (node_Arrive i t e)"
proof -
  let ?N = "level_start k (Suc h)"
  obtain n e1 where ns: "next_spurious (log_events [Access i] e) = (n, e1)"
    by (cases "next_spurious (log_events [Access i] e)")
  from assms(1,3) have len: "unat i < length (others t)"
    by (simp add: tree_shape_def del: level_start.simps)
  with ns have eq: "node_Arrive i t e = arrive_loop i (node_X (others t ! unat i)) False n t e1"
    by (simp add: node_Arrive_def)
  have "extends ?N e (snd (next_spurious (log_events [Access i] e)))"
    using extends_access [OF assms(2,3), of e] extends_next_spurious by (rule extends_trans)
  with ns have x: "extends ?N e e1" by simp
  have "node_post ?N (unat i) t e1 (arrive_loop i (node_X (others t ! unat i)) False n t e1)"
    using assms by (rule arrive_loop_total)
  then have "node_post ?N (unat i) t e (arrive_loop i (node_X (others t ! unat i)) False n t e1)"
    by (intro node_post_compose [OF reshaped_refl x, where i' = "unat i"]) simp_all
  with eq show ?thesis by (simp only:)
qed


lemma Arrive_total:
  assumes "tree_shape k h t"
  shows "\<exists>t' e'. Arrive tid t e = Some (Inr (t', e')) \<and> reshaped t t'
                 \<and> extends (level_start k (Suc h)) e e'"
proof -
  from leaf_of_shape [OF assms, of tid] obtain leaf where
    l: "get_leaf_for_thread t tid = Inr leaf"
    and u: "unat leaf = level_start k h + (unat tid div unat (threads_per_leaf t)) mod k ^ h"
    by blast
  from assms have "0 < k ^ h" by (simp add: tree_shape_def del: level_start.simps power_Suc)
  then have "(unat tid div unat (threads_per_leaf t)) mod k ^ h < k ^ h" by simp
  with u have lN: "unat leaf < level_start k (Suc h)" by (simp only: level_start_Suc)
  show ?thesis
  proof (cases "leaf = 0")
    case True
    with l have "Arrive tid t e = Some (Inr (root_Arrive t, e))" by (simp add: Arrive_def)
    then show ?thesis using reshaped_root(1) extends_refl by blast
  next
    case False
    then have "1 \<le> unat leaf" by (simp add: Suc_le_eq unat_gt_0)
    with assms have "node_post (level_start k (Suc h)) (unat leaf) t e (node_Arrive leaf t e)"
      using lN by (rule node_Arrive_total)
    with l False show ?thesis by (auto simp add: Arrive_def elim!: node_postE)
  qed
qed

lemma Depart_total:
  assumes "tree_shape k h t"
  shows "\<exists>t' e'. Depart tid t e = Some (Inr (t', e')) \<and> reshaped t t'
                 \<and> extends (level_start k (Suc h)) e e'"
proof -
  from leaf_of_shape [OF assms, of tid] obtain leaf where
    l: "get_leaf_for_thread t tid = Inr leaf"
    and u: "unat leaf = level_start k h + (unat tid div unat (threads_per_leaf t)) mod k ^ h"
    by blast
  from assms have "0 < k ^ h" by (simp add: tree_shape_def del: level_start.simps power_Suc)
  then have "(unat tid div unat (threads_per_leaf t)) mod k ^ h < k ^ h" by simp
  with u have lN: "unat leaf < level_start k (Suc h)" by (simp only: level_start_Suc)
  show ?thesis
  proof (cases "leaf = 0")
    case True
    with l have "Depart tid t e = Some (Inr (root_Depart t, e))" by (simp add: Depart_def)
    then show ?thesis using reshaped_root(2) extends_refl by blast
  next
    case False
    then have "1 \<le> unat leaf" by (simp add: Suc_le_eq unat_gt_0)
    with assms have "node_post (level_start k (Suc h)) (unat leaf) t e (node_Depart leaf t e)"
      using lN by (rule node_Depart_total)
    with l False show ?thesis by (auto simp add: Depart_def elim!: node_postE)
  qed
qed

lemma Arrive_full_total:
  assumes "tree_shape k h t"
    and "use_snzi_in_arrive cont \<or> fst (next_spurious e) < 2 ^ 31"
  shows "\<exists>t' cont' e'. Arrive_full tid cont t e = Some (Inr (t', cont', e')) \<and> reshaped t t'
                 \<and> extends (level_start k (Suc h)) e e'"
proof (cases "use_snzi_in_arrive cont")
  case True
  from Arrive_total [OF assms(1), of tid e] obtain t' e' where
    "Arrive tid t e = Some (Inr (t', e'))" and "reshaped t t'"
    and "extends (level_start k (Suc h)) e e'"
    by blast
  with True show ?thesis by (simp add: Arrive_full_def)
next
  case False
  let ?N = "level_start k (Suc h)"
  obtain m e1 where ns: "next_spurious e = (m, e1)" by (cases "next_spurious e")
  let ?e2 = "log_events (fst (backoff_calls m exponential_backoff_init)) e1"
  from False assms(2) ns have "m < 2 ^ 31" by simp
  with ns have "ArriveDirectly cont t e
                  = Inr (t\<lparr>root_X := root_X t + 1\<rparr>,
                         (if 5 \<le> m then cont\<lparr>use_snzi_tree_flag := True\<rparr> else cont), ?e2)"
    by (rule ArriveDirectly_eq)
  moreover have "reshaped t (t\<lparr>root_X := root_X t + 1\<rparr>)" by (simp add: reshaped_def)
  moreover have "extends ?N e ?e2"
  proof -
    from extends_next_spurious [of ?N e] ns have "extends ?N e e1" by simp
    moreover have "extends ?N e1 ?e2" by (intro extends_quiet backoff_calls_quiet)
    ultimately show ?thesis by (rule extends_trans)
  qed
  ultimately show ?thesis using False by (simp add: Arrive_full_def)
qed

lemma Depart_full_total:
  assumes "tree_shape k h t"
  shows "\<exists>t' cont' e'. Depart_full tid cont t e = Some (Inr (t', cont', e')) \<and> reshaped t t'
                 \<and> extends (level_start k (Suc h)) e e'"
proof (cases "use_snzi_in_depart cont")
  case True
  from Depart_total [OF assms(1), of tid e] obtain t' e' where
    "Depart tid t e = Some (Inr (t', e'))" and "reshaped t t'"
    and "extends (level_start k (Suc h)) e e'"
    by blast
  with True show ?thesis by (simp add: Depart_full_def)
next
  case False
  then show ?thesis
    using reshaped_root(2) [of t] extends_refl [of "level_start k (Suc h)" e]
    by (simp add: Depart_full_def DepartDirectly_def)
qed

text \<open>
  Claim C9 (as amended). Let \<open>t0\<close> be a tree built by the constructor for \<open>K \<ge> 2\<close> and
  \<open>H\<close> with \<open>K ^ (H + 1) \<le> 2 ^ 64\<close>, and \<open>t\<close> any state of it: the same sizes and parent
  indices, any counters and flags, as other threads may have left them. Then for every
  \<open>tid\<close> of the size type, \<^verbatim>\<open>Arrive(tid)\<close> and \<^verbatim>\<open>Depart(tid)\<close>, and in the full class
  \<^verbatim>\<open>Arrive(tid, cont)\<close> and \<^verbatim>\<open>Depart(tid, cont)\<close>, return without undefined behaviour,
  leave a state of the same tree, and every element of the node array they use, at the
  leaf and on the way up, has an index \<open>i\<close> with \<open>1 \<le> i < total_nodes\<close>. (One exception:
  \<^verbatim>\<open>ArriveDirectly\<close> counts its failures in an \<^verbatim>\<open>int\<close>, which overflows at \<open>2 ^ 31\<close>
  failures.) The same holds for the operations of every node \<open>i\<close> of the array with
  \<open>1 \<le> i < total_nodes\<close>: for \<^verbatim>\<open>others[i].Arrive()\<close>, for \<^verbatim>\<open>others[i].Depart()\<close>, and for
  the loop of \<^verbatim>\<open>others[i].Arrive()\<close> resumed with any values of its local variables
  \<^verbatim>\<open>oldx\<close> and \<^verbatim>\<open>pArrInv\<close> and any number \<open>n\<close> of spurious failures to come. The last
  case includes the \<^verbatim>\<open>Depart\<close> on the parent that takes back an arrival: the loop
  reaches it only with \<^verbatim>\<open>pArrInv\<close> set and a non-zero \<^verbatim>\<open>oldx\<close>, which a thread finds
  after the counter changed under it. An index 0 is always taken to the root object,
  so slot 0 is never used.
\<close>

theorem node_array_accesses:
  assumes "2 \<le> unat K" and "unat K ^ (unat H + 1) \<le> 2 ^ 64"
    and "snzi_ctor v alloc K H T = Some (Inr t0)" and "reshaped t0 t"
  shows "(\<exists>t' e'. Arrive tid t e = Some (Inr (t', e')) \<and> reshaped t0 t'
                  \<and> extends (unat (total_nodes t0)) e e')
         \<and> (\<exists>t' e'. Depart tid t e = Some (Inr (t', e')) \<and> reshaped t0 t'
                  \<and> extends (unat (total_nodes t0)) e e')
         \<and> (use_snzi_in_arrive cont \<or> fst (next_spurious e) < 2 ^ 31 \<longrightarrow>
              (\<exists>t' cont' e'. Arrive_full tid cont t e = Some (Inr (t', cont', e'))
                  \<and> reshaped t0 t' \<and> extends (unat (total_nodes t0)) e e'))
         \<and> (\<exists>t' cont' e'. Depart_full tid cont t e = Some (Inr (t', cont', e'))
                  \<and> reshaped t0 t' \<and> extends (unat (total_nodes t0)) e e')
         \<and> (1 \<le> unat i \<and> unat i < unat (total_nodes t0) \<longrightarrow>
              (\<exists>t' e'. node_Arrive i t e = Some (Inr (t', e')) \<and> reshaped t0 t'
                  \<and> extends (unat (total_nodes t0)) e e')
              \<and> (\<exists>t' e'. arrive_loop i oldx pArrInv n t e = Some (Inr (t', e'))
                  \<and> reshaped t0 t' \<and> extends (unat (total_nodes t0)) e e')
              \<and> (\<exists>t' e'. node_Depart i t e = Some (Inr (t', e')) \<and> reshaped t0 t'
                  \<and> extends (unat (total_nodes t0)) e e'))"
proof -
  from assms(2) have b: "unat K ^ Suc (unat H) \<le> 2 ^ 64" by simp
  have sh0: "tree_shape (unat K) (unat H) t0" using assms(3) assms(1) b by (rule snzi_ctor_shape)
  then have N: "unat (total_nodes t0) = level_start (unat K) (Suc (unat H))"
    by (simp add: tree_shape_def del: level_start.simps power_Suc)
  from sh0 assms(4) have sh: "tree_shape (unat K) (unat H) t" by (rule tree_shape_reshaped)
  have facade: "(\<exists>t' e'. Arrive tid t e = Some (Inr (t', e')) \<and> reshaped t0 t'
                  \<and> extends (unat (total_nodes t0)) e e')
         \<and> (\<exists>t' e'. Depart tid t e = Some (Inr (t', e')) \<and> reshaped t0 t'
                  \<and> extends (unat (total_nodes t0)) e e')"
    using Arrive_total [OF sh, of tid e] Depart_total [OF sh, of tid e] assms(4)
    unfolding N by (blast intro: reshaped_trans)
  have full_arrive: "\<exists>t' cont' e'. Arrive_full tid cont t e = Some (Inr (t', cont', e'))
                  \<and> reshaped t0 t' \<and> extends (unat (total_nodes t0)) e e'"
    if "use_snzi_in_arrive cont \<or> fst (next_spurious e) < 2 ^ 31"
    using Arrive_full_total [OF sh that, of tid] assms(4)
    unfolding N by (blast intro: reshaped_trans)
  have full_depart: "\<exists>t' cont' e'. Depart_full tid cont t e = Some (Inr (t', cont', e'))
                  \<and> reshaped t0 t' \<and> extends (unat (total_nodes t0)) e e'"
    using Depart_full_total [OF sh, of tid cont e] assms(4)
    unfolding N by (blast intro: reshaped_trans)
  have nodes: "(\<exists>t' e'. node_Arrive i t e = Some (Inr (t', e')) \<and> reshaped t0 t'
                  \<and> extends (unat (total_nodes t0)) e e')
              \<and> (\<exists>t' e'. arrive_loop i oldx pArrInv n t e = Some (Inr (t', e'))
                  \<and> reshaped t0 t' \<and> extends (unat (total_nodes t0)) e e')
              \<and> (\<exists>t' e'. node_Depart i t e = Some (Inr (t', e')) \<and> reshaped t0 t'
                  \<and> extends (unat (total_nodes t0)) e e')"
    if "1 \<le> unat i \<and> unat i < unat (total_nodes t0)"
  proof -
    from that have i1: "1 \<le> unat i" and iN: "unat i < level_start (unat K) (Suc (unat H))"
      unfolding N by simp_all
    from node_Arrive_total [OF sh i1 iN, of e] arrive_loop_total [OF sh i1 iN, of e oldx pArrInv n]
      node_Depart_total [OF sh i1 iN, of e] assms(4)
    show ?thesis unfolding N node_post_def by (blast intro: reshaped_trans)
  qed
  from facade full_arrive full_depart nodes show ?thesis by blast
qed

text \<open>
  On the tree of height 2, with the counter of leaf 3 at 1: a thread that resumes the
  loop of \<^verbatim>\<open>others[3].Arrive()\<close> with \<^verbatim>\<open>oldx = 1\<close> after an arrival at the parent
  increments the leaf and takes the arrival back with \<^verbatim>\<open>others[1].Depart()\<close>.
\<close>

lemma ctor_tall: "snzi_ctor Full_Contention always_alloc 2 2 4 = Some (Inr tall_tree)"
  by code_simp

lemma arrive_loop_takes_back:
  "arrive_loop 3 1 True 0 (set_X 3 1 tall_tree) env_init
     = Some (Inr (set_X 1 (- 1) (set_X 3 2 tall_tree), \<lparr>spurious = [], trace = [Access 1]\<rparr>))"
  by code_simp

theorem node_array_accesses_witness:
  "(\<exists>t' e'. Arrive 1 (set_X 3 1 tall_tree) env_init = Some (Inr (t', e'))
        \<and> reshaped tall_tree t' \<and> extends (unat (total_nodes tall_tree)) env_init e')
   \<and> (\<exists>t' e'. Depart 1 (set_X 3 1 tall_tree) env_init = Some (Inr (t', e'))
        \<and> reshaped tall_tree t' \<and> extends (unat (total_nodes tall_tree)) env_init e')
   \<and> (\<exists>t' cont' e'. Arrive_full 1 contention_status_init (set_X 3 1 tall_tree) env_init
                        = Some (Inr (t', cont', e'))
        \<and> reshaped tall_tree t' \<and> extends (unat (total_nodes tall_tree)) env_init e')
   \<and> (\<exists>t' cont' e'. Depart_full 1 contention_status_init (set_X 3 1 tall_tree) env_init
                        = Some (Inr (t', cont', e'))
        \<and> reshaped tall_tree t' \<and> extends (unat (total_nodes tall_tree)) env_init e')
   \<and> (\<exists>t' e'. node_Arrive 3 (set_X 3 1 tall_tree) env_init = Some (Inr (t', e'))
        \<and> reshaped tall_tree t' \<and> extends (unat (total_nodes tall_tree)) env_init e')
   \<and> (\<exists>t' e'. arrive_loop 3 1 True 0 (set_X 3 1 tall_tree) env_init = Some (Inr (t', e'))
        \<and> reshaped tall_tree t' \<and> extends (unat (total_nodes tall_tree)) env_init e')
   \<and> (\<exists>t' e'. node_Depart 3 (set_X 3 1 tall_tree) env_init = Some (Inr (t', e'))
        \<and> reshaped tall_tree t' \<and> extends (unat (total_nodes tall_tree)) env_init e')"
proof -
  have n: "fst (next_spurious env_init) < 2 ^ 31" by (simp add: next_spurious_def env_init_def)
  have i: "1 \<le> unat (3 :: 64 word) \<and> unat (3 :: 64 word) < unat (total_nodes tall_tree)"
    by (simp add: tall_tree_def)
  from node_array_accesses [OF _ _ ctor_tall reshaped_set_X,
      where tid = 1 and e = env_init and cont = contention_status_init and i = 3
        and oldx = 1 and pArrInv = True and n = 0 and i1 = 3 and x1 = 1] n i
  show ?thesis by simp
qed

text \<open>
  With \<open>K = 2 ^ 33\<close>, \<open>H = 1\<close>, \<open>T = 1\<close> the constructor stores \<open>2 ^ 31\<close> as the number of
  nodes and \<open>2 ^ 33\<close> as the number of leaves; thread 0 is sent to index
  \<open>2 ^ 31 - 2 ^ 33\<close> modulo \<open>2 ^ 64\<close>, which is not below \<^verbatim>\<open>total_nodes\<close>, and
  \<^verbatim>\<open>Arrive(0)\<close> indexes the array out of bounds.
\<close>

theorem node_array_accesses_counterexample:
  "snzi_ctor No_Contention always_alloc 8589934592 1 1 = Some (Inr overflow_tree)
   \<and> get_leaf_for_thread overflow_tree 0 = Inr 18446744067267100672
   \<and> \<not> (18446744067267100672 :: 64 word) < total_nodes overflow_tree
   \<and> Arrive 0 overflow_tree env_init = Some (Inl Undefined_Behaviour)"
  by (simp add: ctor_overflow get_leaf_for_thread_def overflow_tree_fields Arrive_def
      node_Arrive_def)


section \<open>Sequences of arrivals and departures by one thread\<close>

lemma raise_path_0 [simp]: "raise_path v k 0 xs = xs"
  by (simp add: raise_path.simps)

lemma raise_path_step:
  "i \<noteq> 0 \<Longrightarrow> raise_path v k i xs
     = (raise_path v k ((i - 1) div k) (xs[i := announced v (xs ! i)]))
         [i := (raise_path v k ((i - 1) div k) (xs[i := announced v (xs ! i)]) ! i)\<lparr>node_X := 1\<rparr>]"
  by (subst raise_path.simps) (simp add: Let_def)

lemma path_ones_0 [simp]: "path_ones k 0 xs"
  by (simp add: path_ones.simps)

lemma path_ones_step:
  "i \<noteq> 0 \<Longrightarrow> path_ones k i xs = (node_X (xs ! i) = 1 \<and> path_ones k ((i - 1) div k) xs)"
  by (subst path_ones.simps) simp

lemma raise_path_length: "length (raise_path v k i xs) = length xs"
proof (induction v k i xs rule: raise_path.induct)
  case (1 v k i xs)
  show ?case
  proof (cases "i = 0")
    case True
    then show ?thesis by simp
  next
    case False
    with 1 show ?thesis by (simp add: raise_path_step)
  qed
qed

lemma raise_path_frame: "i < j \<Longrightarrow> raise_path v k i xs ! j = xs ! j"
proof (induction v k i xs rule: raise_path.induct)
  case (1 v k i xs)
  show ?case
  proof (cases "i = 0")
    case True
    then show ?thesis by simp
  next
    case False
    have "(i - 1) div k \<le> i" by (meson diff_le_self div_le_dividend le_trans)
    with 1 False have "raise_path v k ((i - 1) div k) (xs[i := announced v (xs ! i)]) ! j
                         = (xs[i := announced v (xs ! i)]) ! j"
      by simp
    with "1.prems" False show ?thesis by (simp add: raise_path_step)
  qed
qed

lemma path_ones_frame:
  assumes "\<forall>j \<le> i. ys ! j = xs ! j"
  shows "path_ones k i ys = path_ones k i xs"
  using assms
proof (induction k i xs rule: path_ones.induct)
  case (1 k i xs)
  show ?case
  proof (cases "i = 0")
    case True
    then show ?thesis by simp
  next
    case False
    have le: "(i - 1) div k \<le> i" by (meson diff_le_self div_le_dividend le_trans)
    with "1.prems" have "\<forall>j \<le> (i - 1) div k. ys ! j = xs ! j" by simp
    with "1.IH" False have "path_ones k ((i - 1) div k) ys = path_ones k ((i - 1) div k) xs"
      by simp
    with "1.prems" False show ?thesis by (simp add: path_ones_step)
  qed
qed

lemma parent_index_less: "0 < i \<Longrightarrow> 2 \<le> k \<Longrightarrow> (i - 1) div k < (i :: nat)"
  by (meson diff_less div_le_dividend le_less_trans less_numeral_extra(1))

lemma path_ones_raise_path:
  "2 \<le> k \<Longrightarrow> i < length xs \<Longrightarrow> path_ones k i (raise_path v k i xs)"
proof (induction v k i xs rule: raise_path.induct)
  case (1 v k i xs)
  show ?case
  proof (cases "i = 0")
    case True
    then show ?thesis by simp
  next
    case False
    let ?p = "(i - 1) div k"
    let ?ys = "raise_path v k ?p (xs[i := announced v (xs ! i)])"
    let ?zs = "?ys[i := (?ys ! i)\<lparr>node_X := 1\<rparr>]"
    have r: "raise_path v k i xs = ?zs"
      using False by (simp add: raise_path_step)
    have lt: "?p < i" using False "1.prems"(1) by (intro parent_index_less) simp_all
    with "1.prems"(2) have "?p < length (xs[i := announced v (xs ! i)])" by simp
    with False "1.prems"(1) have ih: "path_ones k ?p ?ys" by (intro "1.IH") simp_all
    have "\<forall>j \<le> ?p. ?zs ! j = ?ys ! j" using lt by simp
    then have "path_ones k ?p ?zs = path_ones k ?p ?ys" by (rule path_ones_frame)
    moreover have "node_X (?zs ! i) = 1"
      using "1.prems"(2) by (simp add: raise_path_length)
    ultimately have "path_ones k i ?zs"
      using ih False by (simp add: path_ones_step)
    then show ?thesis by (simp only: r)
  qed
qed

lemma node_Arrive_raise:
  assumes "tree_shape k h t" and "1 \<le> unat i" and "unat i < level_start k (Suc h)"
    and "\<forall>j < length (others t). node_X (others t ! j) = 0"
  shows "\<exists>e'. node_Arrive i t e
           = Some (Inr (t\<lparr>root_X := root_X t + 1,
                          others := raise_path (kind t) k (unat i) (others t)\<rparr>, e'))"
  using assms
proof (induction "unat i" arbitrary: i t e rule: less_induct)
  case less
  let ?nd = "others t ! unat i"
  let ?t1 = "set_node (unat i) (announced (kind t) ?nd) t"
  let ?e0 = "snd (next_spurious (log_events [Access i] e))"
  let ?e1 = "if kind t = No_Contention then ?e0
             else log_events (announce_events (kind t) ?nd) ?e0"
  from less.prems(1-3) obtain p where len: "unat i < length (others t)"
    and par: "node_parent ?nd = Some p"
    and up: "unat p = (unat i - 1) div k" and lt: "unat p < unat i"
    by (rule shape_node)
  let ?t2 = "?t1\<lparr>root_X := root_X ?t1 + 1,
                  others := raise_path (kind t) k (unat p) (others ?t1)\<rparr>"
  from less.prems(4) len have X0: "node_X ?nd = 0" by simp
  have r1: "reshaped t ?t1" by (intro reshaped_set_node) simp
  have sh1: "tree_shape k h ?t1" using less.prems(1) r1 by (rule tree_shape_reshaped)
  have len1: "length (others ?t1) = length (others t)" by (simp add: set_node_def)
  have z1: "\<forall>j < length (others ?t1). node_X (others ?t1 ! j) = 0"
    using less.prems(4) by (simp add: len1)
  have "\<exists>e2. parent_Arrive p ?t1 ?e1 = Some (Inr (?t2, e2))"
  proof (cases "p = 0")
    case True
    then show ?thesis by (simp add: parent_Arrive_def root_Arrive_def)
  next
    case False
    then have p1: "1 \<le> unat p" by (simp add: Suc_le_eq unat_gt_0)
    from lt less.prems(3) have pN: "unat p < level_start k (Suc h)" by linarith
    from less.hyps [OF lt sh1 p1 pN z1, of ?e1] False show ?thesis
      by (simp add: parent_Arrive_def)
  qed
  then obtain e2 where call: "parent_Arrive p ?t1 ?e1 = Some (Inr (?t2, e2))" by blast
  have "node_X (others ?t2 ! unat i) = node_X (others ?t1 ! unat i)"
    using lt by (simp add: raise_path_frame)
  with len X0 have X2: "node_X (others ?t2 ! unat i) = 0" by simp
  have "node_Arrive i t e = Some (Inr (set_X (unat i) 1 ?t2, e2))"
    using len X0 par call X2 by (rule node_Arrive_zero)
  moreover have "set_X (unat i) 1 ?t2
                   = t\<lparr>root_X := root_X t + 1,
                        others := raise_path (kind t) k (unat i) (others t)\<rparr>"
  proof -
    from less.prems(2) have "unat i \<noteq> 0" by simp
    then show ?thesis
      by (simp add: set_X_def set_node_def raise_path_step up)
  qed
  ultimately show ?case by simp
qed

lemma node_Depart_cascade:
  assumes "tree_shape k h t" and "1 \<le> unat i" and "unat i < level_start k (Suc h)"
    and "path_ones k (unat i) (others t)"
  shows "\<exists>t' e'. node_Depart i t e = Some (Inr (t', e')) \<and> root_X t' = root_X t - 1"
  using assms
proof (induction "unat i" arbitrary: i t e rule: less_induct)
  case less
  let ?nd = "others t ! unat i"
  let ?t1 = "set_node (unat i) (departed (kind t) ?nd) t"
  let ?e1 = "if kind t = No_Contention then snd (next_spurious (log_events [Access i] e))
             else log_events [Access i] e"
  from less.prems(1-3) obtain p where len: "unat i < length (others t)"
    and par: "node_parent ?nd = Some p"
    and up: "unat p = (unat i - 1) div k" and lt: "unat p < unat i"
    by (rule shape_node)
  from less.prems(2) have i0: "unat i \<noteq> 0" by simp
  from less.prems(4) i0 have X1: "node_X ?nd = 1"
    and pp: "path_ones k (unat p) (others t)" by (simp_all add: path_ones_step up)
  have r1: "reshaped t ?t1" by (intro reshaped_set_node) simp
  have sh1: "tree_shape k h ?t1" using less.prems(1) r1 by (rule tree_shape_reshaped)
  have root1: "root_X ?t1 = root_X t" by (simp add: set_node_def)
  from X1 len par have eq: "node_Depart i t e = parent_Depart p ?t1 ?e1"
    by (simp add: node_Depart_unfold)
  show ?case
  proof (cases "p = 0")
    case True
    with eq root1 show ?thesis by (simp add: parent_Depart_def root_Depart_def)
  next
    case False
    then have p1: "1 \<le> unat p" by (simp add: Suc_le_eq unat_gt_0)
    from lt less.prems(3) have pN: "unat p < level_start k (Suc h)" by linarith
    have "\<forall>j \<le> unat p. others ?t1 ! j = others t ! j" using lt by simp
    then have "path_ones k (unat p) (others ?t1) = path_ones k (unat p) (others t)"
      by (rule path_ones_frame)
    with pp have pp1: "path_ones k (unat p) (others ?t1)" by simp
    from less.hyps [OF lt sh1 p1 pN pp1, of ?e1] eq False root1 show ?thesis
      by (simp add: parent_Depart_def)
  qed
qed

lemma get_leaf_reshaped:
  "reshaped t t' \<Longrightarrow> get_leaf_for_thread t' tid = get_leaf_for_thread t tid"
  by (simp add: reshaped_def get_leaf_for_thread_def)

lemma reshaped_root_X: "reshaped t (t\<lparr>root_X := x\<rparr>)"
  by (simp add: reshaped_def)

lemma calls_add:
  "calls (a + b) f t e
     = (case calls a f t e of Some (Inr (t', e')) \<Rightarrow> calls b f t' e' | r \<Rightarrow> r)"
proof (induction a arbitrary: t e)
  case 0
  show ?case by simp
next
  case (Suc a)
  show ?case
  proof (cases "f t e")
    case None
    then show ?thesis by simp
  next
    case (Some r)
    show ?thesis
    proof (cases r)
      case (Inl err)
      with Some show ?thesis by simp
    next
      case (Inr te)
      obtain t' e' where "te = (t', e')" by (cases te)
      with Some Inr Suc [of t' e'] show ?thesis by simp
    qed
  qed
qed

lemma set_X_same:
  assumes "node_X (others t ! i) = x"
  shows "set_X i x t = t"
proof -
  have "(others t ! i)\<lparr>node_X := x\<rparr> = others t ! i" using assms by simp
  then show ?thesis by (simp add: set_X_def)
qed

lemma set_X_set_X:
  assumes "i < length (others t)"
  shows "set_X i x (set_X i y t) = set_X i x t"
  using assms by (simp add: set_X_def)

lemma others_set_X_same:
  assumes "i < length (others t)"
  shows "node_X (others (set_X i x t) ! i) = x"
  using assms by (simp add: set_X_def)

lemma word_of_nat_neq_0:
  assumes "1 \<le> c" and "c < 2 ^ 64"
  shows "(word_of_nat c :: 64 word) \<noteq> 0"
proof
  assume "(word_of_nat c :: 64 word) = 0"
  then have "unat (word_of_nat c :: 64 word) = 0" by simp
  with assms(2) have "c = 0" by (simp add: unat_of_nat)
  with assms(1) show False by simp
qed

lemma word_of_nat_neq_1:
  assumes "2 \<le> c" and "c < 2 ^ 64"
  shows "(word_of_nat c :: 64 word) \<noteq> 1"
proof
  assume "(word_of_nat c :: 64 word) = 1"
  then have "unat (word_of_nat c :: 64 word) = 1" by simp
  with assms(2) have "c = 1" by (simp add: unat_of_nat)
  with assms(1) show False by simp
qed

lemma calls_root_Arrive:
  assumes "get_leaf_for_thread t tid = Inr 0"
  shows "calls n (Arrive tid) t e = Some (Inr (t\<lparr>root_X := root_X t + word_of_nat n\<rparr>, e))"
  using assms
proof (induction n arbitrary: t)
  case 0
  show ?case by simp
next
  case (Suc n)
  have "get_leaf_for_thread (root_Arrive t) tid = Inr 0"
    using Suc.prems get_leaf_reshaped [OF reshaped_root(1), of t tid] by simp
  then have "calls n (Arrive tid) (root_Arrive t) e
               = Some (Inr ((root_Arrive t)\<lparr>root_X := root_X (root_Arrive t) + word_of_nat n\<rparr>, e))"
    by (rule Suc.IH)
  moreover have "Arrive tid t e = Some (Inr (root_Arrive t, e))"
    using Suc.prems by (simp add: Arrive_def)
  ultimately show ?case by (simp add: root_Arrive_def add.assoc)
qed

lemma calls_root_Depart:
  assumes "get_leaf_for_thread t tid = Inr 0"
  shows "calls n (Depart tid) t e = Some (Inr (t\<lparr>root_X := root_X t - word_of_nat n\<rparr>, e))"
  using assms
proof (induction n arbitrary: t)
  case 0
  show ?case by simp
next
  case (Suc n)
  have "get_leaf_for_thread (root_Depart t) tid = Inr 0"
    using Suc.prems get_leaf_reshaped [OF reshaped_root(2), of t tid] by simp
  then have "calls n (Depart tid) (root_Depart t) e
               = Some (Inr ((root_Depart t)\<lparr>root_X := root_X (root_Depart t) - word_of_nat n\<rparr>, e))"
    by (rule Suc.IH)
  moreover have "Depart tid t e = Some (Inr (root_Depart t, e))"
    using Suc.prems by (simp add: Depart_def)
  ultimately show ?case by (simp add: root_Depart_def algebra_simps)
qed

lemma root_arrive_depart:
  assumes lf: "get_leaf_for_thread t tid = Inr 0" and r0: "root_X t = 0"
    and n1: "1 \<le> n" and nb: "n < 2 ^ 64"
  shows "\<exists>t1 e1. calls n (Arrive tid) t e = Some (Inr (t1, e1)) \<and> Query t1
           \<and> (\<exists>t2 e2. calls n (Depart tid) t1 e1 = Some (Inr (t2, e2)) \<and> \<not> Query t2)"
proof -
  let ?t1 = "t\<lparr>root_X := root_X t + word_of_nat n\<rparr>"
  have a: "calls n (Arrive tid) t e = Some (Inr (?t1, e))" using lf by (rule calls_root_Arrive)
  have "(word_of_nat n :: 64 word) \<noteq> 0" using n1 nb by (rule word_of_nat_neq_0)
  then have q: "Query ?t1" using r0 by (simp add: Query_def root_Query_def)
  have "get_leaf_for_thread ?t1 tid = Inr 0"
    using lf get_leaf_reshaped [OF reshaped_root_X [where t = t and x = "root_X t + word_of_nat n"], of tid]
    by simp
  then have d: "calls n (Depart tid) ?t1 e
                  = Some (Inr (?t1\<lparr>root_X := root_X ?t1 - word_of_nat n\<rparr>, e))"
    by (rule calls_root_Depart)
  have "\<not> Query (?t1\<lparr>root_X := root_X ?t1 - word_of_nat n\<rparr>)"
    using r0 by (simp add: Query_def root_Query_def)
  with a q d show ?thesis by blast
qed

lemma tree_arrive_depart:
  assumes sh: "tree_shape k h t0"
    and z: "\<forall>j < length (others t0). node_X (others t0 ! j) = 0"
    and r0: "root_X t0 = 0"
    and lf: "get_leaf_for_thread t0 tid = Inr leaf" and l0: "leaf \<noteq> 0"
    and n1: "1 \<le> n" and nb: "n < 2 ^ 64"
  shows "\<exists>t1 e1. calls n (Arrive tid) t0 e = Some (Inr (t1, e1)) \<and> Query t1
           \<and> (\<exists>t2 e2. calls n (Depart tid) t1 e1 = Some (Inr (t2, e2)) \<and> \<not> Query t2)"
proof -
  let ?N = "level_start k (Suc h)"
  let ?l = "unat leaf"
  define R where "R = t0\<lparr>root_X := root_X t0 + 1,
                          others := raise_path (kind t0) k ?l (others t0)\<rparr>"
  define U where "U c = set_X ?l (word_of_nat c) R" for c :: nat
  from sh have k2: "2 \<le> k" and len0: "length (others t0) = ?N"
    by (simp_all add: tree_shape_def del: level_start.simps power_Suc)
  from l0 have l1: "1 \<le> ?l" by (simp add: Suc_le_eq unat_gt_0)
  have lN: "?l < ?N"
  proof -
    from leaf_of_shape [OF sh, of tid] lf
    have u: "?l = level_start k h + (unat tid div unat (threads_per_leaf t0)) mod k ^ h"
      by auto
    from k2 have "0 < k ^ h" by simp
    then have "(unat tid div unat (threads_per_leaf t0)) mod k ^ h < k ^ h" by simp
    with u show ?thesis by (simp only: level_start_Suc)
  qed
  txt \<open>The first arrival.\<close>
  have first: "\<exists>e'. node_Arrive leaf t0 e = Some (Inr (R, e'))" for e
    unfolding R_def using sh l1 lN z by (rule node_Arrive_raise)
  have rR: "reshaped t0 R"
  proof -
    from node_Arrive_total [OF sh l1 lN, of env_init]
    obtain t' e' where "node_Arrive leaf t0 env_init = Some (Inr (t', e'))" and "reshaped t0 t'"
      by (rule node_postE)
    with first [of env_init] show ?thesis by auto
  qed
  have rU: "reshaped t0 (U c)" for c
    unfolding U_def using rR reshaped_set_X by (rule reshaped_trans)
  have shU: "tree_shape k h (U c)" for c using sh rU by (rule tree_shape_reshaped)
  have lfU: "get_leaf_for_thread (U c) tid = Inr leaf" for c
    using lf get_leaf_reshaped [OF rU, of c tid] by simp
  have lenR: "?l < length (others R)"
    using lN len0 by (simp add: R_def raise_path_length)
  have lenU: "?l < length (others (U c))" for c
    using lenR by (simp add: U_def set_X_def)
  have XU: "node_X (others (U c) ! ?l) = word_of_nat c" for c
    unfolding U_def using lenR by (rule others_set_X_same)
  have rootU: "root_X (U c) = 1" for c
    using r0 by (simp add: U_def R_def set_X_def)
  have UU: "set_X ?l (word_of_nat c) (U d) = U c" for c d
    unfolding U_def using lenR by (rule set_X_set_X)
  have XR: "node_X (others R ! ?l) = 1"
  proof -
    from l1 have "?l \<noteq> 0" by simp
    moreover have "?l < length (raise_path (kind t0) k ((?l - 1) div k)
                               ((others t0)[?l := announced (kind t0) (others t0 ! ?l)]))"
      using lN len0 by (simp add: raise_path_length)
    ultimately show ?thesis by (simp add: R_def raise_path_step)
  qed
  have U1: "U 1 = R"
    unfolding U_def using XR by (simp add: set_X_same)
  have pR: "path_ones k ?l (others R)"
    using k2 lN len0 by (simp add: R_def path_ones_raise_path)
  txt \<open>Further arrivals only count at the leaf.\<close>
  have a_step: "\<exists>e'. Arrive tid (U c) e = Some (Inr (U (Suc c), e'))"
    if "1 \<le> c" and "c < 2 ^ 64" for c e
  proof -
    from that have nz: "node_X (others (U c) ! ?l) \<noteq> 0"
      by (simp only: XU) (rule word_of_nat_neq_0)
    have "node_Arrive leaf (U c) e
            = Some (Inr (set_X ?l (node_X (others (U c) ! ?l) + 1) (U c),
                         snd (next_spurious (log_events [Access leaf] e))))"
      using lenU nz by (rule node_Arrive_nonzero)
    moreover have "set_X ?l (node_X (others (U c) ! ?l) + 1) (U c) = U (Suc c)"
      using UU [of "Suc c" c] by (simp add: XU add.commute)
    ultimately show ?thesis using lfU [of c] l0 by (simp add: Arrive_def)
  qed
  have a_iter: "1 \<le> c \<Longrightarrow> c + m \<le> 2 ^ 64
                \<Longrightarrow> \<exists>e'. calls m (Arrive tid) (U c) e = Some (Inr (U (c + m), e'))" for c m e
  proof (induction m arbitrary: c e)
    case 0
    show ?case by simp
  next
    case (Suc m)
    from Suc.prems have "c < 2 ^ 64" by simp
    with Suc.prems(1) obtain e' where s: "Arrive tid (U c) e = Some (Inr (U (Suc c), e'))"
      using a_step by blast
    from Suc.prems have "\<exists>e''. calls m (Arrive tid) (U (Suc c)) e' = Some (Inr (U (Suc c + m), e''))"
      by (intro Suc.IH) simp_all
    with s show ?case by simp
  qed
  txt \<open>Departures down to one arrival only count at the leaf.\<close>
  have d_step: "\<exists>e'. Depart tid (U (Suc c)) e = Some (Inr (U c, e'))"
    if "1 \<le> c" and "Suc c < 2 ^ 64" for c e
  proof -
    let ?nd = "others (U (Suc c)) ! ?l"
    from that have n1: "node_X ?nd \<noteq> 1"
      by (simp only: XU) (rule word_of_nat_neq_1, simp_all)
    then have "departed (kind (U (Suc c))) ?nd = ?nd\<lparr>node_X := word_of_nat c\<rparr>"
      by (simp add: departed_def XU)
    then have "set_node ?l (departed (kind (U (Suc c))) ?nd) (U (Suc c)) = U c"
      using UU [of c "Suc c"] by (simp add: set_node_def set_X_def)
    moreover have "\<exists>e'. node_Depart leaf (U (Suc c)) e
            = Some (Inr (set_node ?l (departed (kind (U (Suc c))) ?nd) (U (Suc c)), e'))"
      using n1 lenU [of "Suc c"] by (simp add: node_Depart_unfold)
    ultimately show ?thesis using lfU [of "Suc c"] l0 by (simp add: Depart_def)
  qed
  have d_iter: "1 \<le> c \<Longrightarrow> c + m < 2 ^ 64
                \<Longrightarrow> \<exists>e'. calls m (Depart tid) (U (c + m)) e = Some (Inr (U c, e'))" for c m e
  proof (induction m arbitrary: e)
    case 0
    show ?case by simp
  next
    case (Suc m)
    from Suc.prems have "1 \<le> c + m" and "Suc (c + m) < 2 ^ 64" by simp_all
    then obtain e' where s: "Depart tid (U (Suc (c + m))) e = Some (Inr (U (c + m), e'))"
      using d_step by blast
    from Suc.prems have "\<exists>e''. calls m (Depart tid) (U (c + m)) e' = Some (Inr (U c, e''))"
      by (intro Suc.IH) simp_all
    with s show ?case by simp
  qed
  txt \<open>The last departure goes up to the root.\<close>
  have last: "\<exists>t' e'. Depart tid R e = Some (Inr (t', e')) \<and> root_X t' = 0" for e
  proof -
    have "tree_shape k h R" using shU [of 1] by (simp only: U1)
    then have "\<exists>t' e'. node_Depart leaf R e = Some (Inr (t', e')) \<and> root_X t' = root_X R - 1"
      using l1 lN pR by (rule node_Depart_cascade)
    moreover have "root_X R = 1" using rootU [of 1] by (simp only: U1)
    moreover have "get_leaf_for_thread R tid = Inr leaf" using lfU [of 1] by (simp only: U1)
    ultimately show ?thesis using l0 by (simp add: Depart_def)
  qed
  txt \<open>Putting the phases together.\<close>
  from n1 obtain m where n: "n = Suc m" by (cases n) simp_all
  from first [of e] obtain e0 where "node_Arrive leaf t0 e = Some (Inr (R, e0))" by blast
  then have f: "Arrive tid t0 e = Some (Inr (U 1, e0))"
    unfolding U1 using lf l0 by (simp add: Arrive_def)
  from nb n have "1 + m \<le> (2::nat) ^ 64" by simp
  with a_iter [of 1 m e0] obtain e1 where "calls m (Arrive tid) (U 1) e0 = Some (Inr (U n, e1))"
    unfolding n by auto
  with f have A: "calls n (Arrive tid) t0 e = Some (Inr (U n, e1))" by (simp add: n)
  have Q: "Query (U n)" by (simp add: Query_def root_Query_def rootU)
  from nb n have "1 + m < (2::nat) ^ 64" by simp
  with d_iter [of 1 m e1] obtain e2 where d1: "calls m (Depart tid) (U n) e1 = Some (Inr (R, e2))"
    unfolding n U1 by auto
  from last [of e2] obtain t' e3 where d2: "Depart tid R e2 = Some (Inr (t', e3))"
    and rt: "root_X t' = 0" by blast
  have "calls n (Depart tid) (U n) e1 = calls (m + 1) (Depart tid) (U n) e1" by (simp add: n)
  also have "\<dots> = Some (Inr (t', e3))"
    by (simp only: calls_add d1) (simp add: d2)
  finally have D: "calls n (Depart tid) (U n) e1 = Some (Inr (t', e3))" .
  from rt have "\<not> Query t'" by (simp add: Query_def root_Query_def)
  with A Q D show ?thesis by blast
qed

lemma next_spurious_small:
  assumes "list_all (\<lambda>m. m < 5) (spurious e)"
  obtains n e1 where "next_spurious e = (n, e1)" and "n < 5"
    and "list_all (\<lambda>m. m < 5) (spurious e1)"
proof (cases "spurious e")
  case Nil
  with assms show ?thesis by (intro that [of 0 e]) (simp_all add: next_spurious_def)
next
  case (Cons m ms)
  with assms show ?thesis
    by (intro that [of m "e\<lparr>spurious := ms\<rparr>"]) (simp_all add: next_spurious_def)
qed

lemma calls_full_Arrive:
  assumes "list_all (\<lambda>m. m < 5) (spurious e)"
  shows "\<exists>e'. calls_full n (Arrive_full tid) contention_status_init t e
           = Some (Inr (t\<lparr>root_X := root_X t + word_of_nat n\<rparr>, contention_status_init, e'))"
  using assms
proof (induction n arbitrary: t e)
  case 0
  show ?case by simp
next
  case (Suc n)
  from Suc.prems obtain m e1 where ns: "next_spurious e = (m, e1)" and m: "m < 5"
    and rest: "list_all (\<lambda>m. m < 5) (spurious e1)"
    by (rule next_spurious_small)
  let ?e2 = "log_events (fst (backoff_calls m exponential_backoff_init)) e1"
  from m have "m < 2 ^ 31" by simp
  with ns have "ArriveDirectly contention_status_init t e
                  = Inr (t\<lparr>root_X := root_X t + 1\<rparr>,
                         (if 5 \<le> m then contention_status_init\<lparr>use_snzi_tree_flag := True\<rparr>
                          else contention_status_init), ?e2)"
    by (rule ArriveDirectly_eq)
  with m have s: "Arrive_full tid contention_status_init t e
                    = Some (Inr (t\<lparr>root_X := root_X t + 1\<rparr>, contention_status_init, ?e2))"
    by (simp add: Arrive_full_def contention_status_init_def)
  from rest have "list_all (\<lambda>m. m < 5) (spurious ?e2)" by (simp add: log_events_def)
  then have "\<exists>e'. calls_full n (Arrive_full tid) contention_status_init (t\<lparr>root_X := root_X t + 1\<rparr>) ?e2
           = Some (Inr ((t\<lparr>root_X := root_X t + 1\<rparr>)
                          \<lparr>root_X := root_X (t\<lparr>root_X := root_X t + 1\<rparr>) + word_of_nat n\<rparr>,
                        contention_status_init, e'))"
    by (rule Suc.IH)
  with s show ?case by (simp add: add.assoc)
qed

lemma calls_full_Depart:
  "calls_full n (Depart_full tid) contention_status_init t e
     = Some (Inr (t\<lparr>root_X := root_X t - word_of_nat n\<rparr>, contention_status_init, e))"
proof (induction n arbitrary: t)
  case 0
  show ?case by simp
next
  case (Suc n)
  have "Depart_full tid contention_status_init t e
          = Some (Inr (t\<lparr>root_X := root_X t - 1\<rparr>, contention_status_init, e))"
    by (simp add: Depart_full_def DepartDirectly_def root_Depart_def contention_status_init_def)
  with Suc [of "t\<lparr>root_X := root_X t - 1\<rparr>"] show ?case by (simp add: algebra_simps)
qed

text \<open>
  Matched arrivals and departures of one thread. Let \<open>t\<close> be a tree built by the
  constructor for \<open>K \<ge> 2\<close> and \<open>H\<close> with \<open>K ^ (H + 1) \<le> 2 ^ 64\<close>, and \<open>1 \<le> n < 2 ^ 64\<close>.
  Then \<^verbatim>\<open>Query()\<close> on \<open>t\<close> is false; \<open>n\<close> successive calls of \<^verbatim>\<open>Arrive(tid)\<close> return and
  \<^verbatim>\<open>Query()\<close> is true after them; \<open>n\<close> successive calls of \<^verbatim>\<open>Depart(tid)\<close> then return
  and \<^verbatim>\<open>Query()\<close> is false again. This is what the classes without and with semi
  contention handling do, and the tree path of the full class, whatever the spurious
  failures. With \<^verbatim>\<open>Arrive(tid, cont)\<close> and \<^verbatim>\<open>Depart(tid, cont)\<close> of the full class,
  started with an all-false \<^verbatim>\<open>contention_status\<close>, the same holds as long as no
  compare-exchange loop of \<^verbatim>\<open>ArriveDirectly\<close> fails five times or more.
\<close>

lemma matched_arrivals_departures:
  assumes "2 \<le> unat K" and "unat K ^ (unat H + 1) \<le> 2 ^ 64"
    and "snzi_ctor v alloc K H T = Some (Inr t)" and "1 \<le> n" and "n < 2 ^ 64"
  shows "\<not> Query t
         \<and> (\<exists>t1 e1. calls n (Arrive tid) t e = Some (Inr (t1, e1)) \<and> Query t1
              \<and> (\<exists>t2 e2. calls n (Depart tid) t1 e1 = Some (Inr (t2, e2)) \<and> \<not> Query t2))
         \<and> (list_all (\<lambda>m. m < 5) (spurious e) \<longrightarrow>
              (\<exists>t1 c1 e1. calls_full n (Arrive_full tid) contention_status_init t e
                             = Some (Inr (t1, c1, e1)) \<and> Query t1
                 \<and> (\<exists>t2 c2 e2. calls_full n (Depart_full tid) c1 t1 e1
                                  = Some (Inr (t2, c2, e2)) \<and> \<not> Query t2)))"
proof (intro conjI impI)
  from assms(2) have b: "unat K ^ Suc (unat H) \<le> 2 ^ 64" by simp
  note c = snzi_ctor_shape [OF assms(3) assms(1) b]
  from c(4) show "\<not> Query t" by (simp add: Query_def root_Query_def)
  from leaf_of_shape [OF c(1), of tid] obtain leaf where lf: "get_leaf_for_thread t tid = Inr leaf"
    by blast
  show "\<exists>t1 e1. calls n (Arrive tid) t e = Some (Inr (t1, e1)) \<and> Query t1
          \<and> (\<exists>t2 e2. calls n (Depart tid) t1 e1 = Some (Inr (t2, e2)) \<and> \<not> Query t2)"
  proof (cases "leaf = 0")
    case True
    with lf have "get_leaf_for_thread t tid = Inr 0" by simp
    then show ?thesis using c(4) assms(4,5) by (rule root_arrive_depart)
  next
    case False
    from c(5) have z: "\<forall>j < length (others t). node_X (others t ! j) = 0" by simp
    from c(1) z c(4) lf False assms(4,5) show ?thesis by (rule tree_arrive_depart)
  qed
  assume sp: "list_all (\<lambda>m. m < 5) (spurious e)"
  let ?t1 = "t\<lparr>root_X := root_X t + word_of_nat n\<rparr>"
  from calls_full_Arrive [OF sp, of n tid t] obtain e1 where
    a: "calls_full n (Arrive_full tid) contention_status_init t e
          = Some (Inr (?t1, contention_status_init, e1))"
    by blast
  have "(word_of_nat n :: 64 word) \<noteq> 0" using assms(4,5) by (rule word_of_nat_neq_0)
  with c(4) have q: "Query ?t1" by (simp add: Query_def root_Query_def)
  have d: "calls_full n (Depart_full tid) contention_status_init ?t1 e1
             = Some (Inr (?t1\<lparr>root_X := root_X ?t1 - word_of_nat n\<rparr>, contention_status_init, e1))"
    by (rule calls_full_Depart)
  have "\<not> Query (?t1\<lparr>root_X := root_X ?t1 - word_of_nat n\<rparr>)"
    using c(4) by (simp add: Query_def root_Query_def)
  with a q d show "\<exists>t1 c1 e1. calls_full n (Arrive_full tid) contention_status_init t e
                             = Some (Inr (t1, c1, e1)) \<and> Query t1
                 \<and> (\<exists>t2 c2 e2. calls_full n (Depart_full tid) c1 t1 e1
                                  = Some (Inr (t2, c2, e2)) \<and> \<not> Query t2)"
    by blast
qed

lemma matched_arrivals_departures_example:
  "\<not> Query example_tree
   \<and> (\<exists>t1 e1. calls 2 (Arrive 1) example_tree env_init = Some (Inr (t1, e1)) \<and> Query t1
        \<and> (\<exists>t2 e2. calls 2 (Depart 1) t1 e1 = Some (Inr (t2, e2)) \<and> \<not> Query t2))
   \<and> (\<exists>t1 c1 e1. calls_full 2 (Arrive_full 1) contention_status_init example_tree env_init
                       = Some (Inr (t1, c1, e1)) \<and> Query t1
        \<and> (\<exists>t2 c2 e2. calls_full 2 (Depart_full 1) c1 t1 e1
                            = Some (Inr (t2, c2, e2)) \<and> \<not> Query t2))"
  using matched_arrivals_departures [OF _ _ ctor_example, of 2 1 env_init]
  by (simp add: env_init_def)

text \<open>
  Claim C1, which the full class breaks. Take the full-contention tree with \<open>K = 2\<close>,
  \<open>H = 1\<close>, \<open>T = 2\<close>, thread 0 and an all-false \<^verbatim>\<open>contention_status\<close>; \<^verbatim>\<open>Query()\<close> is
  false on the new tree. The thread calls \<^verbatim>\<open>Arrive\<close> twice, and the compare-exchange
  of the first \<^verbatim>\<open>ArriveDirectly\<close> fails five times: both arrivals go to the root
  counter, which is 2, \<^verbatim>\<open>use_snzi_tree_flag\<close> is set, and \<^verbatim>\<open>Query()\<close> is true. The
  thread then calls \<^verbatim>\<open>Depart\<close> twice. The first call goes through \<^verbatim>\<open>DepartDirectly\<close>,
  takes the root counter to 1 and, the flag being set, moves the thread to the tree.
  The second call therefore decrements leaf 1, which never counted an arrival: its
  counter goes from 0 to \<open>2 ^ 64 - 1\<close>, nothing is passed to the root, and the root
  counter stays 1. After two arrivals and two matched departures \<^verbatim>\<open>Query()\<close> is still
  true, where the claim says false.
\<close>

theorem arrive_depart_query_full_variant:
  "snzi_ctor Full_Contention always_alloc 2 1 2 = Some (Inr example_tree)
   \<and> \<not> Query example_tree
   \<and> calls_full 2 (Arrive_full 0) contention_status_init example_tree \<lparr>spurious = [5], trace = []\<rparr>
     = Some (Inr (example_tree\<lparr>root_X := 2\<rparr>,
                  contention_status_init\<lparr>use_snzi_tree_flag := True\<rparr>,
                  \<lparr>spurious = [], trace = [Spin 1, Spin 2, Spin 4, Spin 8, Spin 16]\<rparr>))
   \<and> Query (example_tree\<lparr>root_X := 2\<rparr>)
   \<and> calls_full 2 (Depart_full 0) (contention_status_init\<lparr>use_snzi_tree_flag := True\<rparr>)
        (example_tree\<lparr>root_X := 2\<rparr>)
        \<lparr>spurious = [], trace = [Spin 1, Spin 2, Spin 4, Spin 8, Spin 16]\<rparr>
     = Some (Inr (example_tree
                    \<lparr>root_X := 1,
                     others := [node_init, node_init\<lparr>node_X := - 1, node_parent := Some 0\<rparr>,
                                node_init\<lparr>node_parent := Some 0\<rparr>]\<rparr>,
                  \<lparr>use_snzi_in_arrive = True, use_snzi_in_depart = True, use_snzi_tree_flag = True\<rparr>,
                  \<lparr>spurious = [],
                   trace = [Spin 1, Spin 2, Spin 4, Spin 8, Spin 16, Access 1]\<rparr>))
   \<and> Query (example_tree
               \<lparr>root_X := 1,
                others := [node_init, node_init\<lparr>node_X := - 1, node_parent := Some 0\<rparr>,
                           node_init\<lparr>node_parent := Some 0\<rparr>]\<rparr>)"
  by code_simp


end
